theory Spec2Isabelle
  imports Main "HOL-Library.Word"
begin

section \<open>JavaScript strings\<close>

text \<open>
  A JavaScript string is a sequence of 16-bit code units. File names are modelled as
  lists of code units, so that the character classes of the regular expressions in
  \<^verbatim>\<open>files.service.ts\<close> (\<^verbatim>\<open>.\<close>, \<^verbatim>\<open>\d\<close>, \<^verbatim>\<open>[^)]\<close>)
  and of \<^verbatim>\<open>String.prototype.trim\<close> are the ECMAScript ones.
\<close>

type_synonym jsstring = "16 word list"

definition str :: "string \<Rightarrow> jsstring" where
  "str s = map of_char s"

text \<open>ECMAScript LineTerminator: LF, CR, LS, PS. The regex atom \<^verbatim>\<open>.\<close> (no \<^verbatim>\<open>s\<close> flag)
  matches every code unit except these.\<close>

definition isLineTerminator :: "16 word \<Rightarrow> bool" where
  "isLineTerminator c \<longleftrightarrow> c = 0x0A \<or> c = 0x0D \<or> c = 0x2028 \<or> c = 0x2029"

text \<open>The code units removed by \<^verbatim>\<open>trim\<close>: ECMAScript WhiteSpace (TAB, VT, FF, SP, NBSP,
  ZWNBSP and the Unicode space separators) and LineTerminator.\<close>

definition isWhiteSpace :: "16 word \<Rightarrow> bool" where
  "isWhiteSpace c \<longleftrightarrow>
     c = 0x09 \<or> c = 0x0B \<or> c = 0x0C \<or> c = 0x20 \<or> c = 0xA0 \<or> c = 0x1680 \<or>
     (0x2000 \<le> c \<and> c \<le> 0x200A) \<or> c = 0x202F \<or> c = 0x205F \<or> c = 0x3000 \<or>
     c = 0xFEFF \<or> isLineTerminator c"

text \<open>The regex class \<^verbatim>\<open>\d\<close>: the ASCII digits.\<close>

definition isDigit :: "16 word \<Rightarrow> bool" where
  "isDigit c \<longleftrightarrow> 0x30 \<le> c \<and> c \<le> 0x39"

text \<open>The regex class \<^verbatim>\<open>[\\/]\<close>: backslash or slash.\<close>

definition isSeparator :: "16 word \<Rightarrow> bool" where
  "isSeparator c \<longleftrightarrow> c = 0x5C \<or> c = 0x2F"

definition trim :: "jsstring \<Rightarrow> jsstring" where
  "trim s = rev (dropWhile isWhiteSpace (rev (dropWhile isWhiteSpace s)))"

section \<open>Regular expression matching\<close>

text \<open>
  A regular expression is modelled by what it matches at the head of the remaining input:
  a matcher returns the capture (or the length of the match) when the expression matches
  there, taking the backtracking of the greedy quantifiers into account.
  \<open>firstMatch\<close> is \<^verbatim>\<open>RegExp.prototype.exec\<close> for a non-global expression: the start
  positions are tried from left to right and the first match wins.
\<close>

fun firstMatch :: "(jsstring \<Rightarrow> 'a option) \<Rightarrow> jsstring \<Rightarrow> 'a option" where
  "firstMatch m [] = m []"
| "firstMatch m (c # cs) = (case m (c # cs) of Some r \<Rightarrow> Some r | None \<Rightarrow> firstMatch m cs)"

text \<open>\<^verbatim>\<open>s.replace(re, "")\<close> for an expression anchored with \<^verbatim>\<open>^\<close>: only start position 0
  can match.\<close>

definition replaceAnchored :: "(jsstring \<Rightarrow> nat option) \<Rightarrow> jsstring \<Rightarrow> jsstring" where
  "replaceAnchored m s = (case m s of Some n \<Rightarrow> drop n s | None \<Rightarrow> s)"

text \<open>\<^verbatim>\<open>s.replace(re, "")\<close> for a non-global expression: the leftmost match is deleted.\<close>

fun replaceFirst :: "(jsstring \<Rightarrow> nat option) \<Rightarrow> jsstring \<Rightarrow> jsstring" where
  "replaceFirst m [] = []"
| "replaceFirst m (c # cs) =
     (case m (c # cs) of Some n \<Rightarrow> drop n (c # cs) | None \<Rightarrow> c # replaceFirst m cs)"

text \<open>\<^verbatim>\<open>s.replaceAll(re, "")\<close> for a global expression: every match is deleted, the search
  resuming behind the match.\<close>

fun replaceAll :: "(jsstring \<Rightarrow> nat option) \<Rightarrow> jsstring \<Rightarrow> jsstring" where
  "replaceAll m [] = []"
| "replaceAll m (c # cs) =
     (case m (c # cs) of
        Some (Suc n) \<Rightarrow> replaceAll m (drop n cs)
      | _ \<Rightarrow> c # replaceAll m cs)"

text \<open>\<^verbatim>\<open>/^.*[\\/]/\<close>: the greedy \<^verbatim>\<open>.*\<close> runs to the first line terminator (or the end)
  and backtracks to the last separator before it; the match ends behind that separator.\<close>

definition matchDirectory :: "jsstring \<Rightarrow> nat option" where
  "matchDirectory s =
     (let line = takeWhile (\<lambda>c. \<not> isLineTerminator c) s;
          n = length (dropWhile (\<lambda>c. \<not> isSeparator c) (rev line))
      in if n = 0 then None else Some n)"

text \<open>\<^verbatim>\<open>/\.([^.]*)$/\<close>: a dot followed by dot-free text up to the end of the input.\<close>

definition matchExtension :: "jsstring \<Rightarrow> nat option" where
  "matchExtension s =
     (case s of
        [] \<Rightarrow> None
      | c # cs \<Rightarrow> if c = 0x2E \<and> 0x2E \<notin> set cs then Some (length s) else None)"

text \<open>\<^verbatim>\<open>/\([^)]*\)/\<close>: an opening parenthesis, then everything up to the next closing one.\<close>

definition matchGroup :: "jsstring \<Rightarrow> nat option" where
  "matchGroup s =
     (case s of
        [] \<Rightarrow> None
      | c # cs \<Rightarrow>
          if c = 0x28 \<and> 0x29 \<in> set cs
          then Some (Suc (Suc (length (takeWhile (\<lambda>x. x \<noteq> 0x29) cs))))
          else None)"

text \<open>\<^verbatim>\<open>/\((v[^)]+)\)/\<close>, capture group 1: \<^verbatim>\<open>(v\<close>, at least one code unit other than
  \<^verbatim>\<open>)\<close>, and the closing parenthesis.\<close>

definition matchVersion :: "jsstring \<Rightarrow> jsstring option" where
  "matchVersion s =
     (case s of
        c # v # cs \<Rightarrow>
          if c = 0x28 \<and> v = 0x76 \<and> takeWhile (\<lambda>x. x \<noteq> 0x29) cs \<noteq> [] \<and> 0x29 \<in> set cs
          then Some (v # takeWhile (\<lambda>x. x \<noteq> 0x29) cs)
          else None
      | _ \<Rightarrow> None)"

text \<open>\<^verbatim>\<open>/\((\d{4})\)/\<close>, capture group 1.\<close>

definition matchYear :: "jsstring \<Rightarrow> jsstring option" where
  "matchYear s =
     (case s of
        c # d1 # d2 # d3 # d4 # e # _ \<Rightarrow>
          if c = 0x28 \<and> isDigit d1 \<and> isDigit d2 \<and> isDigit d3 \<and> isDigit d4 \<and> e = 0x29
          then Some [d1, d2, d3, d4]
          else None
      | _ \<Rightarrow> None)"

text \<open>\<^verbatim>\<open>/\(EA\)/\<close>.\<close>

definition matchEA :: "jsstring \<Rightarrow> unit option" where
  "matchEA s = (if take 4 s = [0x28, 0x45, 0x41, 0x29] then Some () else None)"

section \<open>The file name parser of \<^verbatim>\<open>FilesService\<close>\<close>

datatype error = TypeError | StoreWriteError | FilesystemError

definition regexExtractTitle :: "jsstring \<Rightarrow> jsstring" where
  "regexExtractTitle fileName =
     trim (replaceAll matchGroup (replaceFirst matchExtension (replaceAnchored matchDirectory fileName)))"

text \<open>\<^verbatim>\<open>match?.[1]\<close> is returned when it is truthy (a non-empty string), else \<^verbatim>\<open>undefined\<close>.\<close>

definition regexExtractVersion :: "jsstring \<Rightarrow> jsstring option" where
  "regexExtractVersion fileName =
     (case firstMatch matchVersion fileName of
        Some v \<Rightarrow> if v \<noteq> [] then Some v else None
      | None \<Rightarrow> None)"

text \<open>\<^verbatim>\<open>exec\<close> returns \<^verbatim>\<open>null\<close> when nothing matches, and reading index 1 of
  \<^verbatim>\<open>null\<close> throws a TypeError.\<close>

definition regexExtractReleaseYear :: "jsstring \<Rightarrow> error + jsstring" where
  "regexExtractReleaseYear fileName =
     (case firstMatch matchYear fileName of
        None \<Rightarrow> Inl TypeError
      | Some y \<Rightarrow> Inr y)"

definition regexExtractEarlyAccessFlag :: "jsstring \<Rightarrow> bool" where
  "regexExtractEarlyAccessFlag fileName \<longleftrightarrow> firstMatch matchEA fileName \<noteq> None"

subsection \<open>Dates\<close>

text \<open>
  A \<^verbatim>\<open>Date\<close> is its time value, the milliseconds since 1970-01-01T00:00:00Z.
  \<^verbatim>\<open>new Date(s)\<close> is only ever applied to the four digits captured by
  \<open>regexExtractReleaseYear\<close>; for the date-time string format \<^verbatim>\<open>YYYY\<close> the time
  value is ECMAScript's TimeFromYear of that year (midnight UTC of January 1st).
\<close>

definition msPerDay :: int where
  "msPerDay = 86400000"

definition DayFromYear :: "int \<Rightarrow> int" where
  "DayFromYear y = 365 * (y - 1970) + (y - 1969) div 4 - (y - 1901) div 100 + (y - 1601) div 400"

definition TimeFromYear :: "int \<Rightarrow> int" where
  "TimeFromYear y = msPerDay * DayFromYear y"

definition decimal :: "jsstring \<Rightarrow> int" where
  "decimal s = foldl (\<lambda>n c. 10 * n + (uint c - 48)) 0 s"

definition newDate :: "jsstring \<Rightarrow> int" where
  "newDate s = TimeFromYear (decimal s)"

section \<open>Entities\<close>

text \<open>
  The entity \<^verbatim>\<open>Game\<close> of \<^verbatim>\<open>game.entity.ts\<close>. Optional columns are options, images
  and related entities are referred to by their identifiers. \<^verbatim>\<open>Game\<close> extends
  \<^verbatim>\<open>AbstractEntity\<close>, whose declaration is not part of the sources at hand.

  Modelled from the spec: the fields inherited from \<^verbatim>\<open>AbstractEntity\<close>, the identifier
  \<open>id'\<close> read by \<^verbatim>\<open>indexFiles\<close> and the soft-delete marker \<open>deleted_at\<close>
  (a timestamp, \<open>None\<close> for an active record). The creation and update timestamps kept by
  the store are not modelled.
\<close>

record game =
  id' :: "nat option"
  deleted_at :: "nat option"
  rawg_id :: "nat option"
  title :: jsstring
  rawg_title :: "jsstring option"
  version :: "jsstring option"
  release_date :: int
  rawg_release_date :: "int option"
  cache_date :: "int option"
  file_path :: jsstring
  size' :: int
  description :: "jsstring option"
  box_image :: "nat option"
  background_image :: "nat option"
  website_url :: "jsstring option"
  metacritic_rating :: "nat option"
  average_playtime :: "nat option"
  early_access :: bool
  progresses :: "nat list"
  publishers :: "nat list"
  developers :: "nat list"
  stores :: "nat list"
  tags :: "nat list"
  genres :: "nat list"

text \<open>\<^verbatim>\<open>IGameVaultFile\<close>: the name of a file relative to the root, and its size in bytes.\<close>

record IGameVaultFile =
  name :: jsstring
  size_f :: int

datatype GameExistance = DOES_NOT_EXIST | EXISTS | EXISTS_BUT_DELETED | EXISTS_BUT_ALTERED

text \<open>
  Lines 31 to 42 of \<^verbatim>\<open>indexFiles\<close>: a fresh \<^verbatim>\<open>Game\<close> receives the path, the title,
  the size, the release date, the version and the early access flag. The only step that
  can throw is \<open>regexExtractReleaseYear\<close>.
\<close>

definition gameToIndex :: "IGameVaultFile \<Rightarrow> error + game" where
  "gameToIndex file =
     (case regexExtractReleaseYear (name file) of
        Inl e \<Rightarrow> Inl e
      | Inr year \<Rightarrow>
          Inr \<lparr> id' = None, deleted_at = None, rawg_id = None,
                title = regexExtractTitle (name file),
                rawg_title = None,
                version = regexExtractVersion (name file),
                release_date = newDate year,
                rawg_release_date = None, cache_date = None,
                file_path = name file,
                size' = size_f file,
                description = None, box_image = None, background_image = None,
                website_url = None, metacritic_rating = None, average_playtime = None,
                early_access = regexExtractEarlyAccessFlag (name file),
                progresses = [], publishers = [], developers = [], stores = [],
                tags = [], genres = [] \<rparr>)"

section \<open>The games service\<close>

text \<open>
  \<^verbatim>\<open>FilesService\<close> reaches the database only through the four methods of
  \<^verbatim>\<open>GamesService\<close> that it calls. The service is a parameter of the model: a record of
  operations on a store of type \<open>'st\<close>. An operation either throws (\<open>Inl\<close>), leaving
  the store as it was, or returns its result together with the store it leaves behind.
  The second component of the tuple returned by \<open>checkIfGameExistsInDatabase\<close> may be
  \<^verbatim>\<open>undefined\<close> (\<open>None\<close>).
\<close>

record 'st GamesService =
  checkIfGameExistsInDatabase :: "game \<Rightarrow> 'st \<Rightarrow> error + GameExistance \<times> game option"
  saveGame :: "game \<Rightarrow> 'st \<Rightarrow> error + game \<times> 'st"
  restoreGame :: "nat option \<Rightarrow> 'st \<Rightarrow> error + game \<times> 'st"
  deleteGame :: "game \<Rightarrow> 'st \<Rightarrow> error + 'st"

text \<open>The calls of the logger, each with the file path it prints.\<close>

datatype logEntry =
    STARTED_FILE_INDEXING
  | FINISHED_FILE_INDEXING
  | IdenticalCopySkipping jsstring
  | IndexingNewFile jsstring
  | RestoringSoftDeleted jsstring
  | DetectedChanges jsstring
  | UpdatedGameInformation jsstring
  | FailedToIndex error jsstring
  | STARTED_INTEGRITY_CHECK
  | FINISHED_INTEGRITY_CHECK
  | MarkedAsDeleted jsstring

section \<open>Indexing\<close>

text \<open>
  \<^verbatim>\<open>updateGame\<close>: the spread copies every property of \<^verbatim>\<open>gameToUpdate\<close>, six of them
  are overwritten from \<^verbatim>\<open>updatesToApply\<close>, and the result is saved. The log line reads
  \<^verbatim>\<open>gameToUpdate.file_path\<close>, which throws when \<^verbatim>\<open>gameToUpdate\<close> is undefined.
  The result is what was thrown or returned, the log lines written, and the store.
\<close>

definition updateGame ::
  "'st GamesService \<Rightarrow> game option \<Rightarrow> game \<Rightarrow> 'st \<Rightarrow> (error + game) \<times> logEntry list \<times> 'st" where
  "updateGame svc gameToUpdate updatesToApply st =
     (case gameToUpdate of
        None \<Rightarrow> (Inl TypeError, [], st)
      | Some g \<Rightarrow>
          (let updatedGame = g\<lparr> file_path := file_path updatesToApply,
                                 title := title updatesToApply,
                                 release_date := release_date updatesToApply,
                                 size' := size' updatesToApply,
                                 version := version updatesToApply,
                                 early_access := early_access updatesToApply \<rparr>
           in case saveGame svc updatedGame st of
                Inl e \<Rightarrow> (Inl e, [UpdatedGameInformation (file_path g)], st)
              | Inr (saved, st') \<Rightarrow> (Inr saved, [UpdatedGameInformation (file_path g)], st')))"

definition thrown :: "error + 'a \<Rightarrow> error option" where
  "thrown r = (case r of Inl e \<Rightarrow> Some e | Inr _ \<Rightarrow> None)"

text \<open>
  The body of the \<^verbatim>\<open>try\<close> block for one file: what it threw (if anything), the log lines
  it wrote, and the store it left.
\<close>

definition tryIndex ::
  "'st GamesService \<Rightarrow> IGameVaultFile \<Rightarrow> 'st \<Rightarrow> error option \<times> logEntry list \<times> 'st" where
  "tryIndex svc file st =
     (case gameToIndex file of
        Inl e \<Rightarrow> (Some e, [], st)
      | Inr g \<Rightarrow>
          (case checkIfGameExistsInDatabase svc g st of
             Inl e \<Rightarrow> (Some e, [], st)
           | Inr (existance, existing) \<Rightarrow>
               (case existance of
                  EXISTS \<Rightarrow> (None, [IdenticalCopySkipping (file_path g)], st)
                | DOES_NOT_EXIST \<Rightarrow>
                    (case saveGame svc g st of
                       Inl e \<Rightarrow> (Some e, [IndexingNewFile (file_path g)], st)
                     | Inr (saved, st') \<Rightarrow> (None, [IndexingNewFile (file_path g)], st'))
                | EXISTS_BUT_DELETED \<Rightarrow>
                    (case existing of
                       None \<Rightarrow> (Some TypeError, [RestoringSoftDeleted (file_path g)], st)
                     | Some found \<Rightarrow>
                         (case restoreGame svc (id' found) st of
                            Inl e \<Rightarrow> (Some e, [RestoringSoftDeleted (file_path g)], st)
                          | Inr (restoredGame, st1) \<Rightarrow>
                              (case updateGame svc (Some restoredGame) g st1 of
                                 (r, l, st2) \<Rightarrow>
                                   (thrown r, RestoringSoftDeleted (file_path g) # l, st2))))
                | EXISTS_BUT_ALTERED \<Rightarrow>
                    (case updateGame svc existing g st of
                       (r, l, st') \<Rightarrow> (thrown r, DetectedChanges (file_path g) # l, st')))))"

text \<open>One iteration of the loop: the \<^verbatim>\<open>catch\<close> clause logs whatever was thrown.\<close>

definition indexFile ::
  "'st GamesService \<Rightarrow> IGameVaultFile \<Rightarrow> 'st \<Rightarrow> logEntry list \<times> 'st" where
  "indexFile svc file st =
     (case tryIndex svc file st of
        (None, l, st') \<Rightarrow> (l, st')
      | (Some e, l, st') \<Rightarrow> (l @ [FailedToIndex e (name file)], st'))"

fun indexLoop ::
  "'st GamesService \<Rightarrow> IGameVaultFile list \<Rightarrow> 'st \<Rightarrow> logEntry list \<times> 'st" where
  "indexLoop svc [] st = ([], st)"
| "indexLoop svc (file # files) st =
     (case indexFile svc file st of
        (l, st') \<Rightarrow> (case indexLoop svc files st' of (l', st'') \<Rightarrow> (l @ l', st'')))"

text \<open>
  \<^verbatim>\<open>indexFiles\<close>: what leaves the method as an exception (nothing: every statement that
  can throw is inside the \<^verbatim>\<open>try\<close> block), the log lines and the store.
\<close>

definition indexFiles ::
  "'st GamesService \<Rightarrow> IGameVaultFile list \<Rightarrow> 'st \<Rightarrow> error option \<times> logEntry list \<times> 'st" where
  "indexFiles svc gamesInFileSystem st =
     (case indexLoop svc gamesInFileSystem st of
        (l, st') \<Rightarrow> (None, STARTED_FILE_INDEXING # l @ [FINISHED_FILE_INDEXING], st'))"

section \<open>Integrity check\<close>

text \<open>
  The loop of \<^verbatim>\<open>integrityCheck\<close> has no \<^verbatim>\<open>try\<close>: what \<^verbatim>\<open>deleteGame\<close> throws ends
  the loop and leaves the method.
\<close>

fun integrityLoop ::
  "'st GamesService \<Rightarrow> IGameVaultFile list \<Rightarrow> game list \<Rightarrow> 'st \<Rightarrow>
     error option \<times> logEntry list \<times> 'st" where
  "integrityLoop svc gamesInFileSystem [] st = (None, [], st)"
| "integrityLoop svc gamesInFileSystem (gameInDatabase # rest) st =
     (case find (\<lambda>g. name g = file_path gameInDatabase) gamesInFileSystem of
        Some gameInFileSystem \<Rightarrow> integrityLoop svc gamesInFileSystem rest st
      | None \<Rightarrow>
          (case deleteGame svc gameInDatabase st of
             Inl e \<Rightarrow> (Some e, [], st)
           | Inr st' \<Rightarrow>
               (case integrityLoop svc gamesInFileSystem rest st' of
                  (r, l, st'') \<Rightarrow> (r, MarkedAsDeleted (file_path gameInDatabase) # l, st''))))"

definition integrityCheck ::
  "'st GamesService \<Rightarrow> IGameVaultFile list \<Rightarrow> game list \<Rightarrow> 'st \<Rightarrow>
     error option \<times> logEntry list \<times> 'st" where
  "integrityCheck svc gamesInFileSystem gamesInDatabase st =
     (case integrityLoop svc gamesInFileSystem gamesInDatabase st of
        (None, l, st') \<Rightarrow> (None, STARTED_INTEGRITY_CHECK # l @ [FINISHED_INTEGRITY_CHECK], st')
      | (Some e, l, st') \<Rightarrow> (Some e, STARTED_INTEGRITY_CHECK # l, st'))"

section \<open>Listing the files\<close>

text \<open>
  \<^verbatim>\<open>path.extname\<close> of Node.js (POSIX): trailing slashes are ignored, the last component
  of the path is taken, and the result runs from its last dot to its end. It is empty when
  the component has no dot, when its only dot is its first code unit, and when the component
  is \<^verbatim>\<open>..\<close>.
\<close>

definition extname :: "jsstring \<Rightarrow> jsstring" where
  "extname path =
     (let trimmed = rev (dropWhile (\<lambda>c. c = 0x2F) (rev path));
          base = rev (takeWhile (\<lambda>c. c \<noteq> 0x2F) (rev trimmed));
          ext = rev (takeWhile (\<lambda>c. c \<noteq> 0x2E) (rev base))
      in if 0x2E \<notin> set base then []
         else if length base = Suc (length ext) then []
         else if base = [0x2E, 0x2E] then []
         else 0x2E # ext)"

definition archiveExtensions :: "jsstring list" where
  "archiveExtensions =
     [str ''.zip'', str ''.7z'', str ''.rar'', str ''.tar'', str ''.tar.gz'', str ''.tar.bz2'',
      str ''.tar.xz'', str ''.tgz'', str ''.tbz2'', str ''.txz'']"

record configuration =
  MOCK_FILES :: bool
  FILES :: jsstring

text \<open>The two calls into \<^verbatim>\<open>fs\<close>: the recursive listing of a directory (paths relative to
  it) and the size reported by \<^verbatim>\<open>statSync\<close>; either may throw.\<close>

record filesystem =
  readdirSync :: "jsstring \<Rightarrow> error + jsstring list"
  statSync :: "jsstring \<Rightarrow> error + int"

fun statEach :: "filesystem \<Rightarrow> jsstring \<Rightarrow> jsstring list \<Rightarrow> error + IGameVaultFile list" where
  "statEach fs root [] = Inr []"
| "statEach fs root (file # files) =
     (case statSync fs (root @ str ''/'' @ file) of
        Inl e \<Rightarrow> Inl e
      | Inr n \<Rightarrow>
          (case statEach fs root files of
             Inl e \<Rightarrow> Inl e
           | Inr rest \<Rightarrow> Inr (\<lparr> name = file, size_f = n \<rparr> # rest)))"

definition getFiles ::
  "configuration \<Rightarrow> IGameVaultFile list \<Rightarrow> filesystem \<Rightarrow> error + IGameVaultFile list" where
  "getFiles cfg mock fs =
     (if MOCK_FILES cfg then Inr mock
      else case readdirSync fs (FILES cfg) of
             Inl e \<Rightarrow> Inl e
           | Inr entries \<Rightarrow>
               statEach fs (FILES cfg)
                 (filter (\<lambda>file. extname file \<in> set archiveExtensions) entries))"

section \<open>The record store\<close>

text \<open>
  \<^verbatim>\<open>games.service.ts\<close> is not among the sources at hand. The store and its operations
  follow sections 3, 4.3 and 6 of the specification: the rows of the table, soft-deleted
  ones included, in the order of their creation.
\<close>

type_synonym store = "game list"

text \<open>Modelled from the spec: \<^verbatim>\<open>RecordStore.findByPath\<close>, which is missing from the sources;
  it looks the path up among all rows, soft-deleted ones included.\<close>

definition findByPath :: "jsstring \<Rightarrow> store \<Rightarrow> game option" where
  "findByPath p st = find (\<lambda>g. file_path g = p) st"

text \<open>Modelled from the spec: the existence classifier of section 4.3, which is missing from
  the sources (\<^verbatim>\<open>GamesService.checkIfGameExistsInDatabase\<close>). No row with the path:
  new; a soft-deleted row: restorable whatever its size; an active row: unchanged when the
  size is the same, altered otherwise.\<close>

definition classify :: "game \<Rightarrow> store \<Rightarrow> GameExistance \<times> game option" where
  "classify candidate st =
     (case findByPath (file_path candidate) st of
        None \<Rightarrow> (DOES_NOT_EXIST, None)
      | Some g \<Rightarrow>
          if deleted_at g \<noteq> None then (EXISTS_BUT_DELETED, Some g)
          else if size' g = size' candidate then (EXISTS, Some g)
          else (EXISTS_BUT_ALTERED, Some g))"

text \<open>Modelled from the spec: the identifier given to a new row, which the missing store
  chooses; here the successor of the largest identifier in use.\<close>

definition freshId :: "store \<Rightarrow> nat" where
  "freshId st = Suc (foldr (\<lambda>g m. case id' g of None \<Rightarrow> m | Some i \<Rightarrow> max i m) st 0)"

text \<open>Modelled from the spec: \<^verbatim>\<open>RecordStore.create\<close>, which is missing from the sources; a
  row is added, and a path already in use (by an active or a soft-deleted row) is a
  uniqueness violation.\<close>

definition create :: "game \<Rightarrow> store \<Rightarrow> error + game \<times> store" where
  "create entry st =
     (if file_path entry \<in> set (map file_path st) then Inl StoreWriteError
      else (let g = entry\<lparr> id' := Some (freshId st) \<rparr> in Inr (g, st @ [g])))"

text \<open>Modelled from the spec: \<^verbatim>\<open>RecordStore.update\<close>, which is missing from the sources; the
  row with the identifier of the entry is overwritten in place. It fails when there is no
  such row and when another row already has the new path.\<close>

definition update :: "game \<Rightarrow> store \<Rightarrow> error + game \<times> store" where
  "update entry st =
     (if id' entry = None \<or> id' entry \<notin> set (map id' st) then Inl StoreWriteError
      else if \<exists>r \<in> set st. id' r \<noteq> id' entry \<and> file_path r = file_path entry
        then Inl StoreWriteError
      else Inr (entry, map (\<lambda>r. if id' r = id' entry then entry else r) st))"

text \<open>Modelled from the spec: \<^verbatim>\<open>RecordStore.restore\<close>, which is missing from the sources; it
  clears the soft-delete marker of the row and returns the row.\<close>

definition restore :: "nat option \<Rightarrow> store \<Rightarrow> error + game \<times> store" where
  "restore i st =
     (case find (\<lambda>r. id' r = i) st of
        None \<Rightarrow> Inl StoreWriteError
      | Some r \<Rightarrow>
          if i = None then Inl StoreWriteError
          else Inr (r\<lparr> deleted_at := None \<rparr>,
                    map (\<lambda>x. if id' x = i then x\<lparr> deleted_at := None \<rparr> else x) st))"

text \<open>Modelled from the spec: \<^verbatim>\<open>RecordStore.softDelete\<close>, which is missing from the sources;
  it sets the soft-delete marker of the row to the current time and removes nothing.\<close>

definition softDelete :: "nat \<Rightarrow> nat option \<Rightarrow> store \<Rightarrow> error + store" where
  "softDelete now i st =
     (if i = None \<or> i \<notin> set (map id' st) then Inl StoreWriteError
      else Inr (map (\<lambda>x. if id' x = i then x\<lparr> deleted_at := Some now \<rparr> else x) st))"

text \<open>Modelled from the spec: \<^verbatim>\<open>RecordStore.listActive\<close>, which is missing from the sources.\<close>

definition listActive :: "store \<Rightarrow> game list" where
  "listActive st = filter (\<lambda>g. deleted_at g = None) st"

text \<open>Modelled from the spec: the four methods of the missing \<^verbatim>\<open>GamesService\<close> in terms of
  the record store; \<^verbatim>\<open>saveGame\<close> creates a row for an entity without an identifier and
  updates the row of an entity that has one. \<open>now\<close> is the time of the call.\<close>

definition gamesService :: "nat \<Rightarrow> store GamesService" where
  "gamesService now =
     \<lparr> checkIfGameExistsInDatabase = (\<lambda>g st. Inr (classify g st)),
       saveGame = (\<lambda>g st. if id' g = None then create g st else update g st),
       restoreGame = restore,
       deleteGame = (\<lambda>g st. softDelete now (id' g) st) \<rparr>"

text \<open>The invariant of the store (section 3): every row has an identifier, no two rows share
  an identifier, and no two rows, soft-deleted or not, share a path.\<close>

definition wf_store :: "store \<Rightarrow> bool" where
  "wf_store st \<longleftrightarrow>
     (\<forall>g \<in> set st. id' g \<noteq> None) \<and> distinct (map id' st) \<and> distinct (map file_path st)"

section \<open>Parenthesized groups, in the words of the specification\<close>

text \<open>A parenthesized group of exactly four digits \<open>y\<close> starts at position \<open>i\<close> of
  the path \<open>p\<close>.\<close>

definition yearGroupAt :: "jsstring \<Rightarrow> nat \<Rightarrow> jsstring \<Rightarrow> bool" where
  "yearGroupAt p i y \<longleftrightarrow>
     length y = 4 \<and> (\<forall>c \<in> set y. isDigit c) \<and> take 6 (drop i p) = 0x28 # y @ [0x29]"

text \<open>A group \<^verbatim>\<open>(v<text>)\<close> starts at position \<open>i\<close> of the path \<open>p\<close>, with \<open>v\<close>
  the letter v followed by the non-empty text, which has no closing parenthesis.\<close>

definition versionGroupAt :: "jsstring \<Rightarrow> nat \<Rightarrow> jsstring \<Rightarrow> bool" where
  "versionGroupAt p i v \<longleftrightarrow>
     2 \<le> length v \<and> hd v = 0x76 \<and> 0x29 \<notin> set v \<and>
     take (length v + 2) (drop i p) = 0x28 # v @ [0x29]"

section \<open>The title rule, in the words of the specification\<close>

text \<open>In the words of the specification (section 4.1, rule 1), to be compared with
  \<open>regexExtractTitle\<close>. The last segment of a path is what follows its last path
  separator (the whole path when it has none); the directory prefix is the rest, up to
  and including that separator.\<close>

definition spec_lastSegment :: "jsstring \<Rightarrow> jsstring" where
  "spec_lastSegment p = rev (takeWhile (\<lambda>c. \<not> isSeparator c) (rev p))"

definition spec_directoryPrefix :: "jsstring \<Rightarrow> jsstring" where
  "spec_directoryPrefix p = take (length p - length (spec_lastSegment p)) p"

text \<open>Dropping the extension removes the final \<^verbatim>\<open>.\<close> and the text after it; a name
  without \<^verbatim>\<open>.\<close> is left as it is.\<close>

definition spec_dropExtension :: "jsstring \<Rightarrow> jsstring" where
  "spec_dropExtension s =
     (if 0x2E \<in> set s then rev (tl (dropWhile (\<lambda>c. c \<noteq> 0x2E) (rev s))) else s)"

text \<open>Removing every parenthesized group: as long as the first \<^verbatim>\<open>(\<close> is followed by a
  \<^verbatim>\<open>)\<close>, the text from that \<^verbatim>\<open>(\<close> to the next \<^verbatim>\<open>)\<close> is taken out and the removal goes
  on behind it.\<close>

function spec_removeGroups :: "jsstring \<Rightarrow> jsstring" where
  "spec_removeGroups s =
     (if 0x29 \<in> set (dropWhile (\<lambda>c. c \<noteq> 0x28) s)
      then takeWhile (\<lambda>c. c \<noteq> 0x28) s @
           spec_removeGroups (tl (dropWhile (\<lambda>c. c \<noteq> 0x29) (dropWhile (\<lambda>c. c \<noteq> 0x28) s)))
      else s)"
  by pat_completeness auto
termination
proof (relation "measure length")
  show "wf (measure length)" by simp
next
  fix s :: jsstring
  assume a: "0x29 \<in> set (dropWhile (\<lambda>c. c \<noteq> 0x28) s)"
  let ?rest = "dropWhile (\<lambda>c. c \<noteq> 0x28) s"
  from a have "dropWhile (\<lambda>c. c \<noteq> 0x29) ?rest \<noteq> []" by simp
  then have "length (tl (dropWhile (\<lambda>c. c \<noteq> 0x29) ?rest)) < length (dropWhile (\<lambda>c. c \<noteq> 0x29) ?rest)"
    by (cases "dropWhile (\<lambda>c. c \<noteq> 0x29) ?rest") auto
  also have "\<dots> \<le> length ?rest" by (rule length_dropWhile_le)
  also have "\<dots> \<le> length s" by (rule length_dropWhile_le)
  finally show "(tl (dropWhile (\<lambda>c. c \<noteq> 0x29) ?rest), s) \<in> measure length" by simp
qed

declare spec_removeGroups.simps [simp del]

section \<open>Auxiliary notions for the record store\<close>

text \<open>The object saved by \<open>updateGame\<close>: the existing game with the six fields taken
  from the candidate.\<close>

abbreviation (input) overwritten :: "game \<Rightarrow> game \<Rightarrow> game" where
  "overwritten g c \<equiv> g\<lparr> file_path := file_path c, title := title c,
       release_date := release_date c, size' := size' c, version := version c,
       early_access := early_access c \<rparr>"

text \<open>A file is up to date in a store when the classifier answers \<open>EXISTS\<close> for the game
  parsed from it (a file that does not parse has nothing to bring up to date), and
  \<open>secondRunLine\<close> is the one log line such a file produces.\<close>

definition upToDate :: "IGameVaultFile \<Rightarrow> store \<Rightarrow> bool" where
  "upToDate file st \<longleftrightarrow>
     (case gameToIndex file of
        Inl e \<Rightarrow> True
      | Inr c \<Rightarrow> fst (classify c st) = EXISTS)"

definition secondRunLine :: "IGameVaultFile \<Rightarrow> logEntry" where
  "secondRunLine file =
     (case gameToIndex file of
        Inl e \<Rightarrow> FailedToIndex e (name file)
      | Inr c \<Rightarrow> IdenticalCopySkipping (name file))"

text \<open>Example data: a row of the store with a given identifier, path, size and soft-delete
  marker, and two file names.\<close>

definition exampleRow :: "nat \<Rightarrow> jsstring \<Rightarrow> int \<Rightarrow> nat option \<Rightarrow> game" where
  "exampleRow i p n d =
     \<lparr> id' = Some i, deleted_at = d, rawg_id = Some 3498,
       title = regexExtractTitle p, rawg_title = Some (regexExtractTitle p),
       version = regexExtractVersion p, release_date = 0,
       rawg_release_date = None, cache_date = Some 0,
       file_path = p, size' = n,
       description = None, box_image = Some 1, background_image = Some 2,
       website_url = None, metacritic_rating = Some 90, average_playtime = None,
       early_access = regexExtractEarlyAccessFlag p,
       progresses = [], publishers = [4], developers = [5], stores = [],
       tags = [6, 7], genres = [8] \<rparr>"

definition portal2 :: jsstring where
  "portal2 = str ''Portal 2 (2011).zip''"

definition halfLife :: jsstring where
  "halfLife = str ''Half-Life (1998) (v1.1).zip''"



section \<open>Properties of the matchers\<close>

lemma firstMatch_Some_iff:
  "firstMatch m s = Some r \<longleftrightarrow> (\<exists>i\<le>length s. m (drop i s) = Some r \<and> (\<forall>j<i. m (drop j s) = None))"
proof (induction s)
  case Nil
  then show ?case by auto
next
  case (Cons c cs)
  show ?case
  proof (cases "m (c # cs)")
    case None
    have "(\<exists>i\<le>length (c # cs). m (drop i (c # cs)) = Some r \<and> (\<forall>j<i. m (drop j (c # cs)) = None))
        \<longleftrightarrow> (\<exists>i\<le>length cs. m (drop i cs) = Some r \<and> (\<forall>j<i. m (drop j cs) = None))"
      (is "?L \<longleftrightarrow> ?R")
    proof
      assume ?L
      then obtain i where i: "i \<le> length (c # cs)" "m (drop i (c # cs)) = Some r"
        "\<forall>j<i. m (drop j (c # cs)) = None" by blast
      from i(2) None obtain k where k: "i = Suc k" by (cases i) auto
      have "\<forall>j<k. m (drop j cs) = None"
      proof (intro allI impI)
        fix j assume "j < k"
        then have "Suc j < i" using k by simp
        with i(3) have "m (drop (Suc j) (c # cs)) = None" by blast
        then show "m (drop j cs) = None" by simp
      qed
      with i k show ?R by auto
    next
      assume ?R
      then obtain i where i: "i \<le> length cs" "m (drop i cs) = Some r"
        "\<forall>j<i. m (drop j cs) = None" by blast
      have "\<forall>j<Suc i. m (drop j (c # cs)) = None"
      proof (intro allI impI)
        fix j assume "j < Suc i"
        then show "m (drop j (c # cs)) = None"
          using None i(3) by (cases j) auto
      qed
      with i show ?L by (intro exI[of _ "Suc i"]) auto
    qed
    with None Cons show ?thesis by simp
  next
    case (Some a)
    have "(\<exists>i\<le>length (c # cs). m (drop i (c # cs)) = Some r \<and> (\<forall>j<i. m (drop j (c # cs)) = None))
        \<longleftrightarrow> a = r"
    proof
      assume "\<exists>i\<le>length (c # cs). m (drop i (c # cs)) = Some r \<and> (\<forall>j<i. m (drop j (c # cs)) = None)"
      then obtain i where i: "m (drop i (c # cs)) = Some r" "\<forall>j<i. m (drop j (c # cs)) = None" by blast
      show "a = r"
      proof (cases i)
        case 0
        with i Some show ?thesis by simp
      next
        case (Suc k)
        with i(2) have "m (drop 0 (c # cs)) = None" by blast
        with Some show ?thesis by simp
      qed
    next
      assume "a = r"
      with Some show "\<exists>i\<le>length (c # cs). m (drop i (c # cs)) = Some r \<and> (\<forall>j<i. m (drop j (c # cs)) = None)"
        by (intro exI[of _ 0]) auto
    qed
    with Some show ?thesis by simp
  qed
qed

lemma firstMatch_None_iff:
  "firstMatch m s = None \<longleftrightarrow> (\<forall>i\<le>length s. m (drop i s) = None)"
proof (induction s)
  case Nil
  then show ?case by simp
next
  case (Cons c cs)
  have "(\<forall>i\<le>length (c # cs). m (drop i (c # cs)) = None)
     \<longleftrightarrow> m (c # cs) = None \<and> (\<forall>i\<le>length cs. m (drop i cs) = None)"
  proof (intro iffI conjI allI impI)
    assume a: "\<forall>i\<le>length (c # cs). m (drop i (c # cs)) = None"
    from a have "m (drop 0 (c # cs)) = None" by blast
    then show "m (c # cs) = None" by simp
    fix i assume "i \<le> length cs"
    with a have "m (drop (Suc i) (c # cs)) = None" by (metis Suc_le_mono length_Cons)
    then show "m (drop i cs) = None" by simp
  next
    fix i assume a: "m (c # cs) = None \<and> (\<forall>i\<le>length cs. m (drop i cs) = None)" and "i \<le> length (c # cs)"
    then show "m (drop i (c # cs)) = None" by (cases i) auto
  qed
  with Cons show ?case by (auto split: option.splits)
qed

lemma take_Suc_eq_Cons: "take (Suc n) s = x # xs \<longleftrightarrow> (\<exists>r. s = x # r \<and> take n r = xs)"
  by (cases s) auto

lemma matchYear_iff:
  "matchYear s = Some y \<longleftrightarrow>
     length y = 4 \<and> (\<forall>c \<in> set y. isDigit c) \<and> take 6 s = 0x28 # y @ [0x29]"
proof
  assume "matchYear s = Some y"
  then show "length y = 4 \<and> (\<forall>c \<in> set y. isDigit c) \<and> take 6 s = 0x28 # y @ [0x29]"
    by (auto simp: matchYear_def split: list.splits if_splits)
next
  assume a: "length y = 4 \<and> (\<forall>c \<in> set y. isDigit c) \<and> take 6 s = 0x28 # y @ [0x29]"
  then obtain a b c d where y: "y = [a, b, c, d]"
    by (auto simp: length_Suc_conv numeral_eq_Suc)
  with a have "take (Suc (Suc (Suc (Suc (Suc (Suc 0)))))) s = [0x28, a, b, c, d, 0x29]"
    by (simp add: numeral_eq_Suc)
  then obtain rest where "s = 0x28 # a # b # c # d # 0x29 # rest"
    unfolding take_Suc_eq_Cons by auto
  with a y show "matchYear s = Some y" by (simp add: matchYear_def)
qed

lemma matchYear_yearGroupAt: "matchYear (drop i p) = Some y \<longleftrightarrow> yearGroupAt p i y"
  by (simp add: matchYear_iff yearGroupAt_def)

lemma matchYear_append:
  assumes "6 \<le> length s"
  shows "matchYear (s @ r) = matchYear s"
proof -
  have t: "take 6 (s @ r) = take 6 s" using assms by simp
  have "matchYear (s @ r) = Some y \<longleftrightarrow> matchYear s = Some y" for y
    unfolding matchYear_iff t ..
  then show ?thesis by (metis not_None_eq)
qed

lemma yearGroupAt_length: "yearGroupAt p i y \<Longrightarrow> i + 6 \<le> length p"
proof -
  assume "yearGroupAt p i y"
  then have "length (take 6 (drop i p)) = 6" by (simp add: yearGroupAt_def)
  then show ?thesis by simp
qed


lemma takeWhile_until: "a \<notin> set t \<Longrightarrow> takeWhile (\<lambda>x. x \<noteq> a) (t @ a # r) = t"
  by (induction t) auto

lemma matchVersion_iff:
  "matchVersion s = Some v \<longleftrightarrow>
     2 \<le> length v \<and> hd v = 0x76 \<and> 0x29 \<notin> set v \<and> take (length v + 2) s = 0x28 # v @ [0x29]"
proof
  assume m: "matchVersion s = Some v"
  then obtain cs where s: "s = 0x28 # 0x76 # cs" and cs: "takeWhile (\<lambda>x. x \<noteq> 0x29) cs \<noteq> []" "0x29 \<in> set cs"
    and v: "v = 0x76 # takeWhile (\<lambda>x. x \<noteq> 0x29) cs"
    by (auto simp: matchVersion_def split: list.splits if_splits)
  let ?t = "takeWhile (\<lambda>x. x \<noteq> 0x29) cs"
  have d: "dropWhile (\<lambda>x. x \<noteq> 0x29) cs \<noteq> []" using cs(2) by simp
  then have hd: "hd (dropWhile (\<lambda>x. x \<noteq> 0x29) cs) = 0x29"
    using hd_dropWhile[of "\<lambda>x. x \<noteq> 0x29" cs] by simp
  from d hd obtain r where r: "dropWhile (\<lambda>x. x \<noteq> 0x29) cs = 0x29 # r"
    by (cases "dropWhile (\<lambda>x. x \<noteq> 0x29) cs") auto
  have "cs = ?t @ 0x29 # r" using takeWhile_dropWhile_id[of "\<lambda>x. x \<noteq> 0x29" cs] r by simp
  then have "take (length ?t + 1) cs = ?t @ [0x29]"
    by (metis append.assoc append_Cons append_Nil append_eq_conv_conj length_append_singleton Suc_eq_plus1)
  moreover have "0x29 \<notin> set ?t" by (auto dest: set_takeWhileD)
  moreover have "length ?t \<ge> 1" using cs(1) by (cases ?t) auto
  ultimately show "2 \<le> length v \<and> hd v = 0x76 \<and> 0x29 \<notin> set v \<and> take (length v + 2) s = 0x28 # v @ [0x29]"
    using s v by simp
next
  assume a: "2 \<le> length v \<and> hd v = 0x76 \<and> 0x29 \<notin> set v \<and> take (length v + 2) s = 0x28 # v @ [0x29]"
  then obtain t where v: "v = 0x76 # t" "t \<noteq> []" "0x29 \<notin> set t"
    by (cases v; cases "tl v") auto
  from a v have "take (Suc (Suc (Suc (length t)))) s = 0x28 # 0x76 # t @ [0x29]" by simp
  then obtain cs where s: "s = 0x28 # 0x76 # cs" and cs: "take (Suc (length t)) cs = t @ [0x29]"
    unfolding take_Suc_eq_Cons by auto
  from cs have "cs = t @ 0x29 # drop (Suc (length t)) cs"
    by (metis append.assoc append_Cons append_Nil append_take_drop_id)
  then obtain r where r: "cs = t @ 0x29 # r" by blast
  have "takeWhile (\<lambda>x. x \<noteq> 0x29) cs = t" using r v(3) by (simp add: takeWhile_until)
  moreover have "0x29 \<in> set cs" using r by simp
  ultimately show "matchVersion s = Some v" using s v by (simp add: matchVersion_def)
qed

lemma matchVersion_versionGroupAt: "matchVersion (drop i p) = Some v \<longleftrightarrow> versionGroupAt p i v"
  by (simp add: matchVersion_iff versionGroupAt_def)

lemma matchVersion_append:
  assumes "0x29 \<in> set (drop 2 s)"
  shows "matchVersion (s @ r) = matchVersion s"
proof -
  from assms obtain c v cs where s: "s = c # v # cs" and cs: "0x29 \<in> set cs"
    by (cases s; cases "tl s") auto
  from cs have "takeWhile (\<lambda>x. x \<noteq> 0x29) (cs @ r) = takeWhile (\<lambda>x. x \<noteq> 0x29) cs"
    by simp
  with s cs show ?thesis by (simp add: matchVersion_def)
qed

lemma dropWhile_all_iff: "(\<forall>c \<in> set (dropWhile P s). P c) \<longleftrightarrow> (\<forall>c \<in> set s. P c)"
  by (induction s) auto

lemma trim_Nil_iff: "trim s = [] \<longleftrightarrow> (\<forall>c \<in> set s. isWhiteSpace c)"
proof -
  have "trim s = [] \<longleftrightarrow> dropWhile isWhiteSpace (rev (dropWhile isWhiteSpace s)) = []"
    by (simp only: trim_def rev_is_Nil_conv)
  also have "\<dots> \<longleftrightarrow> (\<forall>c \<in> set (dropWhile isWhiteSpace s). isWhiteSpace c)"
    by (simp only: dropWhile_eq_Nil_conv set_rev)
  finally show ?thesis by (simp only: dropWhile_all_iff)
qed

lemma trim_hd_last:
  assumes "trim s \<noteq> []"
  shows "\<not> isWhiteSpace (hd (trim s)) \<and> \<not> isWhiteSpace (last (trim s))"
proof -
  let ?d = "dropWhile isWhiteSpace s"
  let ?e = "dropWhile isWhiteSpace (rev ?d)"
  from assms have e: "?e \<noteq> []" by (simp add: trim_def)
  then have d: "?d \<noteq> []" by fastforce
  have 1: "\<not> isWhiteSpace (hd ?e)" using e by (rule hd_dropWhile)
  have 2: "\<not> isWhiteSpace (hd ?d)" using d by (rule hd_dropWhile)
  have "last (rev ?d) = hd ?d" using d by (simp add: last_rev)
  moreover have "last ?e = last (rev ?d)"
    using d 2 by (intro dropWhile_last) (auto simp: last_rev)
  ultimately have "\<not> isWhiteSpace (last ?e)" using 2 by simp
  then show ?thesis using 1 e by (simp add: trim_def hd_rev last_rev)
qed

lemma year_missing:
  "(\<forall>i y. \<not> yearGroupAt p i y) \<Longrightarrow> regexExtractReleaseYear p = Inl TypeError"
proof -
  assume "\<forall>i y. \<not> yearGroupAt p i y"
  then have "\<forall>i\<le>length p. matchYear (drop i p) = None"
    by (metis matchYear_yearGroupAt not_None_eq)
  then have "firstMatch matchYear p = None" by (simp add: firstMatch_None_iff)
  then show ?thesis by (simp add: regexExtractReleaseYear_def)
qed

lemma year_first_group:
  assumes "yearGroupAt dir k y0"
  shows "\<exists>i y. regexExtractReleaseYear (dir @ rest) = Inr y \<and> i \<le> k \<and> yearGroupAt dir i y \<and>
           (\<forall>j<i. \<forall>y'. \<not> yearGroupAt (dir @ rest) j y')"
proof -
  let ?p = "dir @ rest"
  from assms have k: "k + 6 \<le> length dir" by (rule yearGroupAt_length)
  have pre: "matchYear (drop j ?p) = matchYear (drop j dir)" if "j \<le> k" for j
    using that k by (simp add: matchYear_append)
  from assms have "matchYear (drop k ?p) = Some y0"
    using pre[of k] by (simp only: matchYear_yearGroupAt le_refl)
  then have "firstMatch matchYear ?p \<noteq> None"
    using k by (auto simp: firstMatch_None_iff intro!: exI[of _ k])
  then obtain y where y: "firstMatch matchYear ?p = Some y" by blast
  then obtain i where i: "i \<le> length ?p" "matchYear (drop i ?p) = Some y"
    "\<forall>j<i. matchYear (drop j ?p) = None"
    unfolding firstMatch_Some_iff by blast
  have ik: "i \<le> k"
  proof (rule ccontr)
    assume "\<not> i \<le> k"
    then have "k < i" by simp
    with i(3) have "matchYear (drop k ?p) = None" by blast
    with \<open>matchYear (drop k ?p) = Some y0\<close> show False by simp
  qed
  have "yearGroupAt dir i y" using i(2) pre[OF ik] by (simp only: matchYear_yearGroupAt)
  moreover have "\<forall>j<i. \<forall>y'. \<not> yearGroupAt ?p j y'"
    using i(3) by (metis matchYear_yearGroupAt option.distinct(1))
  ultimately show ?thesis using y ik by (auto simp: regexExtractReleaseYear_def)
qed

lemma versionGroupAt_length: "versionGroupAt p i v \<Longrightarrow> i + length v + 2 \<le> length p"
proof -
  assume "versionGroupAt p i v"
  then have "length (take (length v + 2) (drop i p)) = length v + 2" by (simp add: versionGroupAt_def)
  then show ?thesis by simp
qed

lemma version_first_group:
  assumes "versionGroupAt dir k v0"
  shows "\<exists>i v. regexExtractVersion (dir @ rest) = Some v \<and> i \<le> k \<and> versionGroupAt dir i v \<and>
           (\<forall>j<i. \<forall>v'. \<not> versionGroupAt (dir @ rest) j v')"
proof -
  let ?p = "dir @ rest"
  from assms have k: "k + length v0 + 2 \<le> length dir" by (rule versionGroupAt_length)
  have close: "0x29 \<in> set (drop 2 (drop j dir))" if "j \<le> k" for j
  proof -
    from assms have "take (length v0 + 2) (drop k dir) = 0x28 # v0 @ [0x29]" "2 \<le> length v0"
      by (simp_all add: versionGroupAt_def)
    then have "(drop k dir) ! (length v0 + 1) = 0x29"
      by (metis Suc_eq_plus1 add_2_eq_Suc' lessI nth_Cons_Suc nth_append_length nth_take)
    then have "dir ! (k + length v0 + 1) = 0x29" using k by (simp add: add.assoc)
    moreover have "j + 2 + (k + length v0 + 1 - (j + 2)) = k + length v0 + 1"
      using that \<open>2 \<le> length v0\<close> by arith
    then have "drop 2 (drop j dir) ! (k + length v0 + 1 - (j + 2)) = dir ! (k + length v0 + 1)"
      using that k by (simp only: drop_drop nth_drop add.commute[of 2 j])
    moreover have "k + length v0 + 1 - (j + 2) < length (drop 2 (drop j dir))"
      using that k \<open>2 \<le> length v0\<close> by simp
    ultimately show ?thesis by (metis nth_mem)
  qed
  have pre: "matchVersion (drop j ?p) = matchVersion (drop j dir)" if "j \<le> k" for j
  proof -
    have "drop j ?p = drop j dir @ rest" using that k by simp
    then show ?thesis using close[OF that] by (simp add: matchVersion_append)
  qed
  from assms have mk: "matchVersion (drop k ?p) = Some v0"
    using pre[of k] by (simp only: matchVersion_versionGroupAt le_refl)
  then have "firstMatch matchVersion ?p \<noteq> None"
    using k by (auto simp: firstMatch_None_iff intro!: exI[of _ k])
  then obtain v where v: "firstMatch matchVersion ?p = Some v" by blast
  then obtain i where i: "i \<le> length ?p" "matchVersion (drop i ?p) = Some v"
    "\<forall>j<i. matchVersion (drop j ?p) = None"
    unfolding firstMatch_Some_iff by blast
  have ik: "i \<le> k"
  proof (rule ccontr)
    assume "\<not> i \<le> k"
    then have "k < i" by simp
    with i(3) have "matchVersion (drop k ?p) = None" by blast
    with mk show False by simp
  qed
  have g: "versionGroupAt dir i v" using i(2) pre[OF ik] by (simp only: matchVersion_versionGroupAt)
  then have "v \<noteq> []" by (auto simp: versionGroupAt_def)
  moreover have "\<forall>j<i. \<forall>v'. \<not> versionGroupAt ?p j v'"
    using i(3) by (metis matchVersion_versionGroupAt option.distinct(1))
  ultimately show ?thesis using v ik g by (auto simp: regexExtractVersion_def)
qed

lemmas parser_defs = regexExtractTitle_def regexExtractVersion_def regexExtractReleaseYear_def
  regexExtractEarlyAccessFlag_def replaceAnchored_def matchDirectory_def matchExtension_def
  matchGroup_def matchVersion_def matchYear_def matchEA_def trim_def isWhiteSpace_def
  isLineTerminator_def isSeparator_def isDigit_def str_def newDate_def decimal_def
  TimeFromYear_def DayFromYear_def msPerDay_def

lemma separator_not_lineTerminator: "isSeparator c \<Longrightarrow> \<not> isLineTerminator c"
  by (auto simp: isSeparator_def isLineTerminator_def)

lemma dropWhile_prefix: "\<forall>c \<in> set xs. P c \<Longrightarrow> dropWhile P (xs @ ys) = dropWhile P ys"
  by (induction xs) auto

lemma removeDirectory_segment:
  assumes "\<forall>c \<in> set dir. \<not> isLineTerminator c" "isSeparator sep" "\<forall>c \<in> set seg. \<not> isSeparator c"
  shows "replaceAnchored matchDirectory (dir @ sep # seg) = seg"
proof -
  let ?t = "takeWhile (\<lambda>c. \<not> isLineTerminator c) seg"
  have line: "takeWhile (\<lambda>c. \<not> isLineTerminator c) (dir @ sep # seg) = dir @ sep # ?t"
    using assms(1,2) by (simp add: separator_not_lineTerminator)
  have "\<forall>c \<in> set (rev ?t). \<not> isSeparator c"
    using assms(3) by (auto dest: set_takeWhileD)
  then have "dropWhile (\<lambda>c. \<not> isSeparator c) (rev ?t @ sep # rev dir) = sep # rev dir"
    using assms(2) by (simp add: dropWhile_prefix)
  then have dw: "dropWhile (\<lambda>c. \<not> isSeparator c) (rev (dir @ sep # ?t)) = sep # rev dir"
    by simp
  have "matchDirectory (dir @ sep # seg) = Some (Suc (length dir))"
    unfolding matchDirectory_def line Let_def dw by simp
  then show ?thesis by (simp add: replaceAnchored_def)
qed

lemma removeDirectory_none:
  assumes "\<forall>c \<in> set p. \<not> isSeparator c"
  shows "replaceAnchored matchDirectory p = p"
proof -
  have "\<forall>c \<in> set (rev (takeWhile (\<lambda>c. \<not> isLineTerminator c) p)). \<not> isSeparator c"
    using assms by (auto dest: set_takeWhileD)
  then have "dropWhile (\<lambda>c. \<not> isSeparator c) (rev (takeWhile (\<lambda>c. \<not> isLineTerminator c) p)) = []"
    by simp
  then show ?thesis by (simp add: replaceAnchored_def matchDirectory_def)
qed

lemma removeExtension_last_dot:
  "0x2E \<notin> set ext \<Longrightarrow> replaceFirst matchExtension (stem @ 0x2E # ext) = stem"
  by (induction stem) (auto simp: matchExtension_def)

lemma removeExtension_none:
  "0x2E \<notin> set s \<Longrightarrow> replaceFirst matchExtension s = s"
  by (induction s) (auto simp: matchExtension_def)

lemma removeGroups_first:
  "0x28 \<notin> set a \<Longrightarrow> 0x29 \<notin> set g \<Longrightarrow>
     replaceAll matchGroup (a @ 0x28 # g @ 0x29 # b) = a @ replaceAll matchGroup b"
proof (induction a)
  case Nil
  then have "takeWhile (\<lambda>x. x \<noteq> 0x29) (g @ 0x29 # b) = g" by (simp add: takeWhile_until)
  then show ?case by (simp add: matchGroup_def)
next
  case (Cons c a)
  then show ?case by (simp add: matchGroup_def)
qed

lemma removeGroups_none:
  "0x28 \<notin> set s \<or> 0x29 \<notin> set s \<Longrightarrow> replaceAll matchGroup s = s"
  by (induction s) (auto simp: matchGroup_def)

lemma trim_core:
  assumes "\<forall>c \<in> set l. isWhiteSpace c" "\<forall>c \<in> set r. isWhiteSpace c"
    "core \<noteq> [] \<longrightarrow> \<not> isWhiteSpace (hd core) \<and> \<not> isWhiteSpace (last core)"
  shows "trim (l @ core @ r) = core"
proof (cases "core = []")
  case True
  then show ?thesis using assms by (simp add: trim_Nil_iff ball_Un)
next
  case False
  then obtain x xs where c: "core = x # xs" by (cases core) auto
  from False obtain ys y where c': "core = ys @ [y]" by (metis rev_exhaust)
  from assms(3) False have "\<not> isWhiteSpace (hd core)" "\<not> isWhiteSpace (last core)" by auto
  then have x: "\<not> isWhiteSpace x" and y: "\<not> isWhiteSpace y"
    using c c' by (metis list.sel(1), metis last_snoc)
  have 1: "dropWhile isWhiteSpace (l @ core @ r) = core @ r"
    using assms(1) x by (simp add: c dropWhile_prefix)
  have "rev (core @ r) = rev r @ y # rev ys" by (simp add: c')
  then have 2: "dropWhile isWhiteSpace (rev (core @ r)) = rev core"
    using assms(2) y by (simp add: dropWhile_prefix c')
  show ?thesis unfolding trim_def 1 2 by simp
qed

lemma extname_one_dot: "0x2E \<notin> set (tl (extname p))"
proof -
  have "0x2E \<notin> set (rev (takeWhile (\<lambda>c. c \<noteq> 0x2E) xs))" for xs :: jsstring
    by (auto dest: set_takeWhileD)
  then show ?thesis by (simp add: extname_def Let_def)
qed

lemma parse_grand_theft_auto:
  "gameToIndex \<lparr> name = str ''Grand Theft Auto V (2013) (v1.0.0) (EA).zip'', size_f = n \<rparr> =
     Inr \<lparr> id' = None, deleted_at = None, rawg_id = None,
           title = str ''Grand Theft Auto V'',
           rawg_title = None,
           version = Some (str ''v1.0.0''),
           release_date = 1356998400000,
           rawg_release_date = None, cache_date = None,
           file_path = str ''Grand Theft Auto V (2013) (v1.0.0) (EA).zip'',
           size' = n,
           description = None, box_image = None, background_image = None,
           website_url = None, metacritic_rating = None, average_playtime = None,
           early_access = True,
           progresses = [], publishers = [], developers = [], stores = [],
           tags = [], genres = [] \<rparr>"
  by (simp add: gameToIndex_def parser_defs)

lemma regexExtractTitle_last_segment:
  assumes "\<forall>c \<in> set dir. \<not> isLineTerminator c" "isSeparator sep" "\<forall>c \<in> set seg. \<not> isSeparator c"
  shows "regexExtractTitle (dir @ sep # seg) = regexExtractTitle seg"
  using assms by (simp add: regexExtractTitle_def removeDirectory_segment removeDirectory_none)

lemma earlyAccess_iff:
  "regexExtractEarlyAccessFlag p \<longleftrightarrow> (\<exists>a b. p = a @ str ''(EA)'' @ b)"
proof
  assume "regexExtractEarlyAccessFlag p"
  then have "firstMatch matchEA p \<noteq> None" by (simp add: regexExtractEarlyAccessFlag_def)
  then obtain i where "matchEA (drop i p) \<noteq> None"
    unfolding firstMatch_None_iff by blast
  then have t: "take 4 (drop i p) = str ''(EA)''"
    by (simp add: matchEA_def str_def split: if_splits)
  have "p = take i p @ take 4 (drop i p) @ drop 4 (drop i p)"
    by (simp only: append_take_drop_id)
  with t show "\<exists>a b. p = a @ str ''(EA)'' @ b" by metis
next
  assume "\<exists>a b. p = a @ str ''(EA)'' @ b"
  then obtain a b where p: "p = a @ str ''(EA)'' @ b" by blast
  then have "take 4 (drop (length a) p) = str ''(EA)''" by (simp add: str_def)
  then have "matchEA (drop (length a) p) = Some ()" by (simp add: matchEA_def str_def)
  moreover have "length a \<le> length p" using p by simp
  ultimately have "firstMatch matchEA p \<noteq> None"
    unfolding firstMatch_None_iff by (metis option.distinct(1))
  then show "regexExtractEarlyAccessFlag p" by (simp add: regexExtractEarlyAccessFlag_def)
qed

section \<open>Properties of indexing and of the record store\<close>

lemma gameToIndex_fields:
  "gameToIndex file = Inr c \<Longrightarrow>
     file_path c = name file \<and> size' c = size_f file \<and> id' c = None \<and> deleted_at c = None"
  by (auto simp: gameToIndex_def split: sum.splits)


lemma tryIndex_parse_failure:
  "gameToIndex f = Inl e \<Longrightarrow> tryIndex svc f s = (Some e, [], s)"
  by (simp add: tryIndex_def)

lemma find_by_id:
  "distinct (map id' st) \<Longrightarrow> g \<in> set st \<Longrightarrow> find (\<lambda>r. id' r = id' g) st = Some g"
  by (induction st) (auto simp: image_iff)

lemma findByPath_Some:
  "findByPath p st = Some g \<Longrightarrow> g \<in> set st \<and> file_path g = p"
  unfolding findByPath_def by (induction st) (auto split: if_splits)

lemma findByPath_None: "findByPath p st = None \<longleftrightarrow> p \<notin> file_path ` set st"
  unfolding findByPath_def by (induction st) auto

lemma same_id_same_path:
  assumes "wf_store st" "g \<in> set st" "r \<in> set st"
  shows "id' r = id' g \<longleftrightarrow> file_path r = file_path g"
proof -
  from assms(1) have "inj_on id' (set st)" "inj_on file_path (set st)"
    by (simp_all add: wf_store_def distinct_map)
  with assms(2,3) show ?thesis by (auto dest: inj_onD)
qed

lemma update_existing:
  assumes "wf_store st" "g \<in> set st" "id' u = id' g" "file_path u = file_path g"
  shows "update u st = Inr (u, map (\<lambda>r. if file_path r = file_path g then u else r) st)"
proof -
  from assms(1,2) have i: "id' g \<noteq> None" by (auto simp: wf_store_def)
  have 1: "id' u \<in> set (map id' st)" using assms(2,3) by auto
  have 2: "\<not> (\<exists>r \<in> set st. id' r \<noteq> id' u \<and> file_path r = file_path u)"
    using same_id_same_path[OF assms(1,2)] assms(3,4) by auto
  have 3: "map (\<lambda>r. if id' r = id' u then u else r) st =
           map (\<lambda>r. if file_path r = file_path g then u else r) st"
    using same_id_same_path[OF assms(1,2)] assms(3) by (intro map_cong) auto
  show ?thesis using i 1 2 3 assms(3) by (simp add: update_def)
qed

lemma restore_existing:
  assumes "wf_store st" "g \<in> set st"
  shows "restore (id' g) st =
           Inr (g\<lparr>deleted_at := None\<rparr>,
                map (\<lambda>r. if file_path r = file_path g then r\<lparr>deleted_at := None\<rparr> else r) st)"
proof -
  from assms have i: "id' g \<noteq> None" by (auto simp: wf_store_def)
  from assms have f: "find (\<lambda>r. id' r = id' g) st = Some g"
    by (simp add: find_by_id wf_store_def)
  have "map (\<lambda>x. if id' x = id' g then x\<lparr>deleted_at := None\<rparr> else x) st =
        map (\<lambda>r. if file_path r = file_path g then r\<lparr>deleted_at := None\<rparr> else r) st"
    using same_id_same_path[OF assms] by (intro map_cong) auto
  then show ?thesis using i f by (simp add: restore_def)
qed

lemma wf_store_touch:
  assumes "wf_store st" "\<And>r. r \<in> set st \<Longrightarrow> id' (h r) = id' r \<and> file_path (h r) = file_path r"
  shows "wf_store (map h st)"
proof -
  have e1: "map id' (map h st) = map id' st" using assms(2) by (induction st) auto
  have e2: "map file_path (map h st) = map file_path st" using assms(2) by (induction st) auto
  have e3: "\<forall>g \<in> set (map h st). id' g \<noteq> None"
    using assms by (auto simp: wf_store_def)
  from assms(1) have "distinct (map id' st)" "distinct (map file_path st)"
    by (simp_all add: wf_store_def)
  then show ?thesis unfolding wf_store_def e1 e2 using e3 by blast
qed

lemma freshId_greater: "g \<in> set st \<Longrightarrow> id' g = Some i \<Longrightarrow> i < freshId st"
  unfolding freshId_def by (induction st) (auto split: option.splits)

lemma wf_store_create:
  assumes "wf_store st" "p \<notin> file_path ` set st" "file_path c = p"
  shows "wf_store (st @ [c\<lparr>id' := Some (freshId st)\<rparr>])"
proof -
  have "Some (freshId st) \<notin> id' ` set st"
  proof
    assume "Some (freshId st) \<in> id' ` set st"
    then obtain g where "g \<in> set st" "id' g = Some (freshId st)" by auto
    then have "freshId st < freshId st" by (rule freshId_greater)
    then show False by simp
  qed
  then show ?thesis using assms by (auto simp: wf_store_def)
qed

lemma saveGame_existing:
  assumes "wf_store st" "g \<in> set st" "id' u = id' g" "file_path u = file_path g"
  shows "saveGame (gamesService now) u st =
           Inr (u, map (\<lambda>r. if file_path r = file_path g then u else r) st)"
proof -
  from assms(1,2) obtain k where "id' g = Some k" by (auto simp: wf_store_def)
  with assms(3) have "id' u = Some k" by simp
  then show ?thesis using update_existing[OF assms] by (simp add: gamesService_def)
qed

text \<open>The effect of one iteration on the record store.\<close>

lemma indexFile_store:
  assumes "wf_store st"
  shows "indexFile (gamesService now) file st =
     (case gameToIndex file of
        Inl e \<Rightarrow> ([FailedToIndex e (name file)], st)
      | Inr c \<Rightarrow>
          (case findByPath (name file) st of
             None \<Rightarrow> ([IndexingNewFile (name file)], st @ [c\<lparr>id' := Some (freshId st)\<rparr>])
           | Some g \<Rightarrow>
               if deleted_at g \<noteq> None
               then ([RestoringSoftDeleted (name file), UpdatedGameInformation (name file)],
                     map (\<lambda>r. if file_path r = name file
                               then overwritten (g\<lparr>deleted_at := None\<rparr>) c else r) st)
               else if size' g = size_f file
               then ([IdenticalCopySkipping (name file)], st)
               else ([DetectedChanges (name file), UpdatedGameInformation (name file)],
                     map (\<lambda>r. if file_path r = name file then overwritten g c else r) st)))"
proof (cases "gameToIndex file")
  case (Inl e)
  then show ?thesis by (simp add: indexFile_def tryIndex_def)
next
  case (Inr c)
  note c = gameToIndex_fields[OF Inr]
  let ?svc = "gamesService now"
  have chk: "checkIfGameExistsInDatabase ?svc c st = Inr (classify c st)"
    by (simp add: gamesService_def)
  show ?thesis
  proof (cases "findByPath (name file) st")
    case None
    then have "name file \<notin> file_path ` set st" by (simp add: findByPath_None)
    then have "saveGame ?svc c st = Inr (c\<lparr>id' := Some (freshId st)\<rparr>, st @ [c\<lparr>id' := Some (freshId st)\<rparr>])"
      using c by (simp add: gamesService_def create_def Let_def)
    moreover have "classify c st = (DOES_NOT_EXIST, None)"
      using None c by (simp add: classify_def)
    ultimately show ?thesis using Inr None c chk
      by (simp add: indexFile_def tryIndex_def)
  next
    case (Some g)
    note g = findByPath_Some[OF Some]
    show ?thesis
    proof (cases "deleted_at g = None")
      case True
      show ?thesis
      proof (cases "size' g = size_f file")
        case True
        with \<open>deleted_at g = None\<close> Some c have "classify c st = (EXISTS, Some g)"
          by (simp add: classify_def)
        then show ?thesis using Inr Some c chk True \<open>deleted_at g = None\<close>
          by (simp add: indexFile_def tryIndex_def)
      next
        case False
        with \<open>deleted_at g = None\<close> Some c have cl: "classify c st = (EXISTS_BUT_ALTERED, Some g)"
          by (simp add: classify_def)
        have "saveGame ?svc (overwritten g c) st =
                Inr (overwritten g c, map (\<lambda>r. if file_path r = file_path g then overwritten g c else r) st)"
          using g c by (intro saveGame_existing[OF assms]) simp_all
        then have "updateGame ?svc (Some g) c st =
                (Inr (overwritten g c), [UpdatedGameInformation (name file)],
                 map (\<lambda>r. if file_path r = name file then overwritten g c else r) st)"
          using g by (simp add: updateGame_def Let_def)
        then show ?thesis using Inr Some c chk cl False \<open>deleted_at g = None\<close>
          by (simp add: indexFile_def tryIndex_def thrown_def)
      qed
    next
      case False
      with Some c have cl: "classify c st = (EXISTS_BUT_DELETED, Some g)"
        by (simp add: classify_def)
      let ?st1 = "map (\<lambda>r. if file_path r = file_path g then r\<lparr>deleted_at := None\<rparr> else r) st"
      let ?r = "g\<lparr>deleted_at := None\<rparr>"
      have "restore (id' g) st = Inr (?r, ?st1)" using g by (intro restore_existing[OF assms]) simp
      then have r: "restoreGame ?svc (id' g) st = Inr (?r, ?st1)" by (simp add: gamesService_def)
      have wf1: "wf_store ?st1" using assms by (intro wf_store_touch) auto
      have in1: "?r \<in> set ?st1" using g by (auto simp: image_iff intro!: bexI[of _ g])
      have u: "saveGame ?svc (overwritten ?r c) ?st1 =
                 Inr (overwritten ?r c, map (\<lambda>r. if file_path r = file_path ?r then overwritten ?r c else r) ?st1)"
        using g c by (intro saveGame_existing[OF wf1 in1]) simp_all
      have m: "map (\<lambda>r. if file_path r = file_path ?r then overwritten ?r c else r) ?st1 =
               map (\<lambda>r. if file_path r = name file then overwritten ?r c else r) st"
        using g by (simp add: comp_def cong: map_cong)
      have "updateGame ?svc (Some ?r) c ?st1 =
                (Inr (overwritten ?r c), [UpdatedGameInformation (name file)],
                 map (\<lambda>r. if file_path r = name file then overwritten ?r c else r) st)"
        using g u m by (simp add: updateGame_def Let_def)
      then show ?thesis using Inr Some c chk cl False r
        by (simp add: indexFile_def tryIndex_def thrown_def)
    qed
  qed
qed






lemma classify_EXISTS_iff:
  "fst (classify c st) = EXISTS \<longleftrightarrow>
     (\<exists>g. findByPath (file_path c) st = Some g \<and> deleted_at g = None \<and> size' g = size' c)"
  by (auto simp: classify_def split: option.splits)

lemma upToDate_iff:
  "upToDate file st \<longleftrightarrow>
     (\<forall>c. gameToIndex file = Inr c \<longrightarrow>
        (\<exists>g. findByPath (name file) st = Some g \<and> deleted_at g = None \<and> size' g = size_f file))"
proof (cases "gameToIndex file")
  case (Inl a)
  then show ?thesis by (simp add: upToDate_def)
next
  case (Inr c)
  then show ?thesis using gameToIndex_fields[OF Inr]
    by (simp add: upToDate_def classify_EXISTS_iff)
qed

lemma find_append_miss: "\<not> P x \<Longrightarrow> find P (xs @ [x]) = find P xs"
  by (induction xs) auto

lemma find_append_hit: "find P xs = None \<Longrightarrow> P x \<Longrightarrow> find P (xs @ [x]) = Some x"
  by (induction xs) (auto split: if_splits)

lemma find_map_same:
  "(\<And>r. r \<in> set xs \<Longrightarrow> P (h r) = P r) \<Longrightarrow> (\<And>r. r \<in> set xs \<Longrightarrow> P r \<Longrightarrow> h r = r) \<Longrightarrow>
     find P (map h xs) = find P xs"
  by (induction xs) auto

lemma find_map_hit:
  "(\<And>r. r \<in> set xs \<Longrightarrow> P (h r) = P r) \<Longrightarrow> find P xs = Some g \<Longrightarrow>
     find P (map h xs) = Some (h g)"
  by (induction xs) (auto split: if_splits)

lemma path_owner:
  assumes "wf_store st" "findByPath p st = Some g" "r \<in> set st" "file_path r = p"
  shows "r = g"
proof -
  from assms(1) have "inj_on file_path (set st)" by (simp add: wf_store_def distinct_map)
  moreover from assms(2) have "g \<in> set st" "file_path g = p" by (auto dest: findByPath_Some)
  ultimately show ?thesis using assms(3,4) by (auto dest: inj_onD)
qed

lemma indexFile_wf:
  assumes "wf_store st"
  shows "wf_store (snd (indexFile (gamesService now) file st))"
proof (cases "gameToIndex file")
  case (Inl e)
  then show ?thesis using assms by (simp add: indexFile_store)
next
  case (Inr c)
  note c = gameToIndex_fields[OF Inr]
  show ?thesis
  proof (cases "findByPath (name file) st")
    case None
    then have "name file \<notin> file_path ` set st" by (simp add: findByPath_None)
    then have "wf_store (st @ [c\<lparr>id' := Some (freshId st)\<rparr>])"
      using assms c by (intro wf_store_create) auto
    then show ?thesis using Inr None assms by (simp add: indexFile_store)
  next
    case (Some g)
    have touch: "wf_store (map (\<lambda>r. if file_path r = name file then overwritten u c else r) st)"
      if "id' u = id' g" for u
    proof (rule wf_store_touch[OF assms])
      fix r assume "r \<in> set st"
      then show "id' (if file_path r = name file then overwritten u c else r) = id' r \<and>
                 file_path (if file_path r = name file then overwritten u c else r) = file_path r"
        using path_owner[OF assms Some] that c by auto
    qed
    show ?thesis using Inr Some assms touch[of g] touch[of "g\<lparr>deleted_at := None\<rparr>"]
      by (simp add: indexFile_store)
  qed
qed

lemma indexFile_other_path:
  assumes "wf_store st" "q \<noteq> name file"
  shows "findByPath q (snd (indexFile (gamesService now) file st)) = findByPath q st"
proof (cases "gameToIndex file")
  case (Inl e)
  then show ?thesis using assms by (simp add: indexFile_store)
next
  case (Inr c)
  note c = gameToIndex_fields[OF Inr]
  show ?thesis
  proof (cases "findByPath (name file) st")
    case None
    then show ?thesis using Inr assms c
      by (simp add: indexFile_store findByPath_def find_append_miss)
  next
    case (Some g)
    have "findByPath q (map (\<lambda>r. if file_path r = name file then overwritten u c else r) st) =
          findByPath q st" for u
      unfolding findByPath_def using assms(2) c by (intro find_map_same) auto
    then show ?thesis using Inr Some assms by (simp add: indexFile_store)
  qed
qed

lemma indexFile_settles:
  assumes "wf_store st"
  shows "upToDate file (snd (indexFile (gamesService now) file st))"
proof (cases "gameToIndex file")
  case (Inl e)
  then show ?thesis by (simp add: upToDate_def)
next
  case (Inr c)
  note c = gameToIndex_fields[OF Inr]
  show ?thesis
  proof (cases "findByPath (name file) st")
    case None
    then have "findByPath (name file) (st @ [c\<lparr>id' := Some (freshId st)\<rparr>]) =
                 Some (c\<lparr>id' := Some (freshId st)\<rparr>)"
      unfolding findByPath_def using c by (intro find_append_hit) auto
    then show ?thesis using Inr None assms c
      by (simp add: indexFile_store upToDate_iff)
  next
    case (Some g)
    have hit: "findByPath (name file) (map (\<lambda>r. if file_path r = name file then overwritten u c else r) st) =
          Some (overwritten u c)" for u
    proof -
      have "find (\<lambda>g. file_path g = name file)
              (map (\<lambda>r. if file_path r = name file then overwritten u c else r) st) =
            Some ((\<lambda>r. if file_path r = name file then overwritten u c else r) g)"
        using Some c unfolding findByPath_def by (intro find_map_hit) auto
      then show ?thesis using findByPath_Some[OF Some] by (simp add: findByPath_def)
    qed
    show ?thesis using Inr Some assms c hit[of g] hit[of "g\<lparr>deleted_at := None\<rparr>"]
      by (simp add: indexFile_store upToDate_iff)
  qed
qed

lemma indexFile_upToDate:
  assumes "wf_store st" "upToDate file st"
  shows "indexFile (gamesService now) file st = ([secondRunLine file], st)"
proof (cases "gameToIndex file")
  case (Inl e)
  then show ?thesis using assms by (simp add: indexFile_store secondRunLine_def)
next
  case (Inr c)
  with assms(2) obtain g where "findByPath (name file) st = Some g" "deleted_at g = None"
    "size' g = size_f file" by (auto simp: upToDate_iff)
  then show ?thesis using Inr assms(1) by (simp add: indexFile_store secondRunLine_def)
qed

lemma upToDate_other_path:
  assumes "wf_store st" "name f \<noteq> name file"
  shows "upToDate f (snd (indexFile (gamesService now) file st)) = upToDate f st"
  using indexFile_other_path[OF assms] by (simp add: upToDate_iff)

lemma indexLoop_Cons_store:
  "snd (indexLoop svc (f # fs) st) = snd (indexLoop svc fs (snd (indexFile svc f st)))"
  by (simp split: prod.splits)

lemma indexLoop_wf:
  "wf_store st \<Longrightarrow> wf_store (snd (indexLoop (gamesService now) files st))"
proof (induction files arbitrary: st)
  case Nil
  then show ?case by simp
next
  case (Cons f fs)
  from Cons.IH[OF indexFile_wf[OF Cons.prems, of now f]]
  show ?case by (simp only: indexLoop_Cons_store)
qed

lemma indexLoop_keeps_upToDate:
  "wf_store st \<Longrightarrow> name f \<notin> name ` set files \<Longrightarrow>
     upToDate f (snd (indexLoop (gamesService now) files st)) = upToDate f st"
proof (induction files arbitrary: st)
  case Nil
  then show ?case by simp
next
  case (Cons f0 fs)
  from Cons.prems have n: "name f \<noteq> name f0" "name f \<notin> name ` set fs" by auto
  have "upToDate f (snd (indexLoop (gamesService now) fs (snd (indexFile (gamesService now) f0 st)))) =
        upToDate f (snd (indexFile (gamesService now) f0 st))"
    using indexFile_wf[OF Cons.prems(1)] n(2) by (rule Cons.IH)
  also have "\<dots> = upToDate f st" using Cons.prems(1) n(1) by (rule upToDate_other_path)
  finally show ?case by (simp only: indexLoop_Cons_store)
qed

lemma indexLoop_settles:
  "wf_store st \<Longrightarrow> distinct (map name files) \<Longrightarrow> f \<in> set files \<Longrightarrow>
     upToDate f (snd (indexLoop (gamesService now) files st))"
proof (induction files arbitrary: st)
  case Nil
  then show ?case by simp
next
  case (Cons f0 fs)
  let ?st1 = "snd (indexFile (gamesService now) f0 st)"
  have wf1: "wf_store ?st1" using Cons.prems(1) by (rule indexFile_wf)
  have "upToDate f (snd (indexLoop (gamesService now) fs ?st1))"
  proof (cases "f \<in> set fs")
    case True
    with Cons.prems(2) show ?thesis by (intro Cons.IH[OF wf1]) simp_all
  next
    case False
    with Cons.prems(3) have "f = f0" by simp
    moreover have "name f0 \<notin> name ` set fs" using Cons.prems(2) by simp
    ultimately show ?thesis
      using indexLoop_keeps_upToDate[OF wf1, of f0 fs now] indexFile_settles[OF Cons.prems(1), of f0 now]
      by simp
  qed
  then show ?case by (simp only: indexLoop_Cons_store)
qed

lemma indexLoop_upToDate:
  "wf_store st \<Longrightarrow> \<forall>f \<in> set files. upToDate f st \<Longrightarrow>
     indexLoop (gamesService now) files st = (map secondRunLine files, st)"
  by (induction files) (simp_all add: indexFile_upToDate)

lemma find_SomeD: "find P xs = Some x \<Longrightarrow> x \<in> set xs \<and> P x"
  by (induction xs) (auto split: if_splits)

lemma integrityLoop_store:
  assumes "\<forall>g \<in> set gs. id' g \<noteq> None \<and> id' g \<in> id' ` set s"
  shows "integrityLoop (gamesService now) files gs s =
     (None,
      map (\<lambda>g. MarkedAsDeleted (file_path g)) (filter (\<lambda>g. file_path g \<notin> name ` set files) gs),
      map (\<lambda>x. if id' x \<in> id' ` {g \<in> set gs. file_path g \<notin> name ` set files}
                then x\<lparr>deleted_at := Some now\<rparr> else x) s)"
  using assms
proof (induction gs arbitrary: s)
  case Nil
  then show ?case by simp
next
  case (Cons g gs)
  let ?missing = "\<lambda>g. file_path g \<notin> name ` set files"
  show ?case
  proof (cases "find (\<lambda>f. name f = file_path g) files")
    case (Some f)
    then have "f \<in> set files" "name f = file_path g" by (auto dest: find_SomeD)
    then have present: "\<not> ?missing g" by (metis imageI)
    then have "{x \<in> set (g # gs). ?missing x} = {x \<in> set gs. ?missing x}" by auto
    moreover have "integrityLoop (gamesService now) files gs s =
       (None, map (\<lambda>g. MarkedAsDeleted (file_path g)) (filter ?missing gs),
        map (\<lambda>x. if id' x \<in> id' ` {g \<in> set gs. ?missing g}
                  then x\<lparr>deleted_at := Some now\<rparr> else x) s)"
      using Cons.prems by (intro Cons.IH) simp
    ultimately show ?thesis using Some present by simp
  next
    case None
    then have missing: "?missing g" by (auto simp: find_None_iff image_iff)
    let ?s' = "map (\<lambda>x. if id' x = id' g then x\<lparr>deleted_at := Some now\<rparr> else x) s"
    from Cons.prems have "id' g \<noteq> None" "id' g \<in> set (map id' s)" by auto
    then have del: "deleteGame (gamesService now) g s = Inr ?s'"
      by (simp add: gamesService_def softDelete_def)
    have "map id' ?s' = map id' s" by (induction s) auto
    then have ids: "id' ` set ?s' = id' ` set s" by (metis set_map)
    have ih: "integrityLoop (gamesService now) files gs ?s' =
       (None, map (\<lambda>g. MarkedAsDeleted (file_path g)) (filter ?missing gs),
        map (\<lambda>x. if id' x \<in> id' ` {g \<in> set gs. ?missing g}
                  then x\<lparr>deleted_at := Some now\<rparr> else x) ?s')"
      using Cons.prems ids by (intro Cons.IH) simp
    have "map (\<lambda>x. if id' x \<in> id' ` {g \<in> set gs. ?missing g}
                  then x\<lparr>deleted_at := Some now\<rparr> else x) ?s' =
          map (\<lambda>x. if id' x \<in> id' ` {x \<in> set (g # gs). ?missing x}
                  then x\<lparr>deleted_at := Some now\<rparr> else x) s"
      using missing by (auto simp: image_iff)
    then show ?thesis using None del ih missing by simp
  qed
qed

lemma integrityCheck_store:
  assumes "wf_store st"
  shows "integrityCheck (gamesService now) files (listActive st) st =
     (None,
      STARTED_INTEGRITY_CHECK #
        map (\<lambda>g. MarkedAsDeleted (file_path g))
          (filter (\<lambda>g. file_path g \<notin> name ` set files) (listActive st)) @
        [FINISHED_INTEGRITY_CHECK],
      map (\<lambda>g. if deleted_at g = None \<and> file_path g \<notin> name ` set files
                then g\<lparr>deleted_at := Some now\<rparr> else g) st)"
proof -
  let ?missing = "\<lambda>g. file_path g \<notin> name ` set files"
  from assms have inj: "inj_on id' (set st)" by (simp add: wf_store_def distinct_map)
  have pre: "\<forall>g \<in> set (listActive st). id' g \<noteq> None \<and> id' g \<in> id' ` set st"
    using assms by (auto simp: listActive_def wf_store_def)
  have "map (\<lambda>x. if id' x \<in> id' ` {g \<in> set (listActive st). ?missing g}
                  then x\<lparr>deleted_at := Some now\<rparr> else x) st =
        map (\<lambda>g. if deleted_at g = None \<and> ?missing g then g\<lparr>deleted_at := Some now\<rparr> else g) st"
  proof (intro map_cong refl)
    fix x assume x: "x \<in> set st"
    have "id' x \<in> id' ` {g \<in> set (listActive st). ?missing g} \<longleftrightarrow> deleted_at x = None \<and> ?missing x"
    proof
      assume "id' x \<in> id' ` {g \<in> set (listActive st). ?missing g}"
      then obtain g where g: "g \<in> set st" "deleted_at g = None" "?missing g" "id' x = id' g"
        by (auto simp: listActive_def)
      with inj x have "x = g" by (auto dest: inj_onD)
      with g show "deleted_at x = None \<and> ?missing x" by simp
    next
      assume "deleted_at x = None \<and> ?missing x"
      with x show "id' x \<in> id' ` {g \<in> set (listActive st). ?missing g}"
        by (auto simp: listActive_def)
    qed
    then show "(if id' x \<in> id' ` {g \<in> set (listActive st). ?missing g}
                  then x\<lparr>deleted_at := Some now\<rparr> else x) =
               (if deleted_at x = None \<and> ?missing x then x\<lparr>deleted_at := Some now\<rparr> else x)"
      by simp
  qed
  then show ?thesis using integrityLoop_store[OF pre, of now files]
    by (simp add: integrityCheck_def)
qed

lemma indexFile_rows:
  assumes "wf_store st"
  shows "length st \<le> length (snd (indexFile (gamesService now) file st))"
  using assms by (simp add: indexFile_store split: sum.splits option.splits)

lemma indexLoop_rows:
  "wf_store st \<Longrightarrow> length st \<le> length (snd (indexLoop (gamesService now) files st))"
proof (induction files arbitrary: st)
  case Nil
  then show ?case by simp
next
  case (Cons f fs)
  have "length st \<le> length (snd (indexFile (gamesService now) f st))"
    using Cons.prems by (rule indexFile_rows)
  also have "\<dots> \<le> length (snd (indexLoop (gamesService now) fs (snd (indexFile (gamesService now) f st))))"
    using indexFile_wf[OF Cons.prems] by (rule Cons.IH)
  finally show ?case by (simp only: indexLoop_Cons_store)
qed

lemma indexFiles_store: "snd (snd (indexFiles svc files st)) = snd (indexLoop svc files st)"
  by (simp add: indexFiles_def split: prod.splits)

lemma by_id_by_path:
  assumes "wf_store st" "findByPath p st = Some g"
  shows "map (\<lambda>r. if id' r = id' g then u else r) st = map (\<lambda>r. if file_path r = p then u else r) st"
proof (intro map_cong refl)
  fix r assume "r \<in> set st"
  from findByPath_Some[OF assms(2)] same_id_same_path[OF assms(1) _ this, of g]
  show "(if id' r = id' g then u else r) = (if file_path r = p then u else r)" by simp
qed

lemma classify_cases:
  "classify c st = (DOES_NOT_EXIST, x) \<Longrightarrow> findByPath (file_path c) st = None"
  "classify c st = (EXISTS, Some g) \<Longrightarrow>
     findByPath (file_path c) st = Some g \<and> deleted_at g = None \<and> size' g = size' c"
  "classify c st = (EXISTS_BUT_DELETED, Some g) \<Longrightarrow>
     findByPath (file_path c) st = Some g \<and> deleted_at g \<noteq> None"
  "classify c st = (EXISTS_BUT_ALTERED, Some g) \<Longrightarrow>
     findByPath (file_path c) st = Some g \<and> deleted_at g = None \<and> size' g \<noteq> size' c"
  by (auto simp: classify_def split: option.splits if_splits)

lemma indexFile_overwrites_row:
  assumes "wf_store st" and "gameToIndex file = Inr c"
  shows
    "classify c st = (EXISTS_BUT_DELETED, Some g) \<Longrightarrow>
        indexFile (gamesService now) file st =
          ([RestoringSoftDeleted (name file), UpdatedGameInformation (name file)],
           map (\<lambda>r. if id' r = id' g
                     then g\<lparr> deleted_at := None, file_path := file_path c, title := title c,
                             release_date := release_date c, size' := size' c,
                             version := version c, early_access := early_access c \<rparr>
                     else r) st)"
    "classify c st = (EXISTS_BUT_ALTERED, Some g) \<Longrightarrow>
        indexFile (gamesService now) file st =
          ([DetectedChanges (name file), UpdatedGameInformation (name file)],
           map (\<lambda>r. if id' r = id' g
                     then g\<lparr> file_path := file_path c, title := title c,
                             release_date := release_date c, size' := size' c,
                             version := version c, early_access := early_access c \<rparr>
                     else r) st)"
proof -
  note c = gameToIndex_fields[OF assms(2)]
  {
    assume a: "classify c st = (EXISTS_BUT_DELETED, Some g)"
    from classify_cases(3)[OF a] c have f: "findByPath (name file) st = Some g"
      and d: "deleted_at g \<noteq> None" by simp_all
    show "indexFile (gamesService now) file st =
          ([RestoringSoftDeleted (name file), UpdatedGameInformation (name file)],
           map (\<lambda>r. if id' r = id' g
                     then g\<lparr> deleted_at := None, file_path := file_path c, title := title c,
                             release_date := release_date c, size' := size' c,
                             version := version c, early_access := early_access c \<rparr>
                     else r) st)"
      using f d assms c by_id_by_path[OF assms(1) f] by (simp add: indexFile_store)
  }
  {
    assume a: "classify c st = (EXISTS_BUT_ALTERED, Some g)"
    from classify_cases(4)[OF a] c have f: "findByPath (name file) st = Some g"
      and d: "deleted_at g = None" "size' g \<noteq> size_f file" by simp_all
    show "indexFile (gamesService now) file st =
          ([DetectedChanges (name file), UpdatedGameInformation (name file)],
           map (\<lambda>r. if id' r = id' g
                     then g\<lparr> file_path := file_path c, title := title c,
                             release_date := release_date c, size' := size' c,
                             version := version c, early_access := early_access c \<rparr>
                     else r) st)"
      using f d assms c by_id_by_path[OF assms(1) f] by (simp add: indexFile_store)
  }
qed

lemma example_paths: "portal2 \<noteq> halfLife" "halfLife \<noteq> portal2"
  by (simp_all add: portal2_def halfLife_def str_def)

lemma example_parse:
  "\<exists>c. gameToIndex \<lparr> name = portal2, size_f = n \<rparr> = Inr c"
  "\<exists>c. gameToIndex \<lparr> name = halfLife, size_f = n \<rparr> = Inr c"
  by (simp_all add: gameToIndex_def portal2_def halfLife_def parser_defs)

lemmas store_defs = indexFiles_def indexFile_def tryIndex_def updateGame_def thrown_def
  gamesService_def classify_def findByPath_def create_def update_def restore_def freshId_def
  gameToIndex_def Let_def

section \<open>The title rule of the specification and the code\<close>

lemma removeGroups_unclosed:
  "0x28 \<notin> set a \<Longrightarrow> 0x29 \<notin> set b \<Longrightarrow> replaceAll matchGroup (a @ b) = a @ b"
  by (induction a) (simp_all add: removeGroups_none matchGroup_def)

lemma removeGroups_spec: "replaceAll matchGroup s = spec_removeGroups s"
proof (induction s rule: spec_removeGroups.induct)
  case (1 s)
  let ?before = "takeWhile (\<lambda>c. c \<noteq> 0x28) s" and ?rest = "dropWhile (\<lambda>c. c \<noteq> 0x28) s"
  have s: "s = ?before @ ?rest" by simp
  have nb: "0x28 \<notin> set ?before" by (auto dest: set_takeWhileD)
  show ?case
  proof (cases "0x29 \<in> set ?rest")
    case True
    then have "?rest \<noteq> []" by (metis empty_iff list.set(1))
    then have "hd ?rest = 0x28" using hd_dropWhile[of "\<lambda>c. c \<noteq> 0x28" s] by simp
    with \<open>?rest \<noteq> []\<close> obtain r where r: "?rest = 0x28 # r" by (cases ?rest) auto
    with True have cr: "0x29 \<in> set r" by auto
    let ?g = "takeWhile (\<lambda>c. c \<noteq> 0x29) r" and ?d = "dropWhile (\<lambda>c. c \<noteq> 0x29) r"
    from cr have "?d \<noteq> []" by simp
    then have "hd ?d = 0x29" using hd_dropWhile[of "\<lambda>c. c \<noteq> 0x29" r] by simp
    with \<open>?d \<noteq> []\<close> obtain b where b: "?d = 0x29 # b" by (cases ?d) auto
    have rg: "r = ?g @ 0x29 # b" using b takeWhile_dropWhile_id[of "\<lambda>c. c \<noteq> 0x29" r] by simp
    have ng: "0x29 \<notin> set ?g" by (auto dest: set_takeWhileD)
    have tl: "tl (dropWhile (\<lambda>c. c \<noteq> 0x29) ?rest) = b" using r b by simp
    have "replaceAll matchGroup s = replaceAll matchGroup (?before @ 0x28 # ?g @ 0x29 # b)"
      using s r rg by metis
    also have "\<dots> = ?before @ replaceAll matchGroup b" using nb ng by (rule removeGroups_first)
    also have "\<dots> = ?before @ spec_removeGroups b" using "1.IH"[OF True] tl by simp
    also have "\<dots> = spec_removeGroups s"
      using True tl by (subst (2) spec_removeGroups.simps) simp
    finally show ?thesis .
  next
    case False
    have "replaceAll matchGroup (?before @ ?rest) = ?before @ ?rest"
      using nb False by (rule removeGroups_unclosed)
    then have "replaceAll matchGroup s = s" by simp
    moreover have "spec_removeGroups s = s"
      using False by (subst spec_removeGroups.simps) simp
    ultimately show ?thesis by simp
  qed
qed

lemma removeExtension_spec: "replaceFirst matchExtension s = spec_dropExtension s"
proof (cases "0x2E \<in> set s")
  case False
  then show ?thesis by (simp add: removeExtension_none spec_dropExtension_def)
next
  case True
  let ?ext = "rev (takeWhile (\<lambda>c. c \<noteq> 0x2E) (rev s))"
  let ?d = "dropWhile (\<lambda>c. c \<noteq> 0x2E) (rev s)"
  from True have "?d \<noteq> []" by simp
  then have "hd ?d = 0x2E" using hd_dropWhile[of "\<lambda>c. c \<noteq> 0x2E" "rev s"] by simp
  with \<open>?d \<noteq> []\<close> obtain t where t: "?d = 0x2E # t" by (cases ?d) auto
  have "rev s = takeWhile (\<lambda>c. c \<noteq> 0x2E) (rev s) @ 0x2E # t"
    using t takeWhile_dropWhile_id[of "\<lambda>c. c \<noteq> 0x2E" "rev s"] by simp
  then have "rev (rev s) = rev (takeWhile (\<lambda>c. c \<noteq> 0x2E) (rev s) @ 0x2E # t)" by simp
  then have s: "s = rev t @ 0x2E # ?ext" by simp
  have ne: "0x2E \<notin> set ?ext" by (auto dest: set_takeWhileD)
  have "replaceFirst matchExtension (rev t @ 0x2E # ?ext) = rev t"
    using ne by (rule removeExtension_last_dot)
  with s have "replaceFirst matchExtension s = rev t" by simp
  moreover have "spec_dropExtension s = rev t" using True t by (simp add: spec_dropExtension_def)
  ultimately show ?thesis by simp
qed

lemma removeDirectory_spec:
  assumes "\<forall>c \<in> set (spec_directoryPrefix p). \<not> isLineTerminator c"
  shows "replaceAnchored matchDirectory p = spec_lastSegment p"
proof (cases "\<forall>c \<in> set p. \<not> isSeparator c")
  case True
  then have tw: "takeWhile (\<lambda>c. \<not> isSeparator c) (rev p) = rev p"
    by (subst takeWhile_eq_all_conv) simp
  have "spec_lastSegment p = p" unfolding spec_lastSegment_def tw by simp
  with True show ?thesis by (simp add: removeDirectory_none)
next
  case False
  let ?seg = "spec_lastSegment p"
  let ?d = "dropWhile (\<lambda>c. \<not> isSeparator c) (rev p)"
  from False have "?d \<noteq> []" by auto
  then have "isSeparator (hd ?d)" using hd_dropWhile[of "\<lambda>c. \<not> isSeparator c" "rev p"] by simp
  with \<open>?d \<noteq> []\<close> obtain sep t where t: "?d = sep # t" "isSeparator sep" by (cases ?d) auto
  have "rev p = takeWhile (\<lambda>c. \<not> isSeparator c) (rev p) @ sep # t"
    using t takeWhile_dropWhile_id[of "\<lambda>c. \<not> isSeparator c" "rev p"] by simp
  then have "rev (rev p) = rev (takeWhile (\<lambda>c. \<not> isSeparator c) (rev p) @ sep # t)" by simp
  then have p: "p = rev t @ sep # ?seg" by (simp add: spec_lastSegment_def)
  have seg: "\<forall>c \<in> set ?seg. \<not> isSeparator c"
    by (auto simp: spec_lastSegment_def dest: set_takeWhileD)
  have "length p - length ?seg = Suc (length t)" by (subst p) simp
  then have "spec_directoryPrefix p = take (Suc (length t)) (rev t @ sep # ?seg)"
    unfolding spec_directoryPrefix_def using p by metis
  then have "spec_directoryPrefix p = rev t @ [sep]" by simp
  with assms have "\<forall>c \<in> set (rev t). \<not> isLineTerminator c" by simp
  then have "replaceAnchored matchDirectory (rev t @ sep # ?seg) = ?seg"
    using t(2) seg by (rule removeDirectory_segment)
  with p show ?thesis by simp
qed

lemma regexExtractTitle_spec:
  assumes "\<forall>c \<in> set (spec_directoryPrefix p). \<not> isLineTerminator c"
  shows "regexExtractTitle p = trim (spec_removeGroups (spec_dropExtension (spec_lastSegment p)))"
  using removeDirectory_spec[OF assms]
  by (simp add: regexExtractTitle_def removeExtension_spec removeGroups_spec)

lemma year_present:
  assumes "yearGroupAt p i y"
  shows "\<exists>y'. regexExtractReleaseYear p = Inr y'"
  using year_first_group[OF assms, of "[]"] by auto

lemma trim_decomposition:
  "\<exists>l r. s = l @ trim s @ r \<and> (\<forall>c \<in> set l. isWhiteSpace c) \<and> (\<forall>c \<in> set r. isWhiteSpace c)"
proof -
  let ?l = "takeWhile isWhiteSpace s" and ?d = "dropWhile isWhiteSpace s"
  let ?r = "rev (takeWhile isWhiteSpace (rev ?d))"
  have "rev (rev ?d) = rev (takeWhile isWhiteSpace (rev ?d) @ dropWhile isWhiteSpace (rev ?d))"
    unfolding takeWhile_dropWhile_id ..
  then have d: "?d = trim s @ ?r" unfolding rev_append rev_rev_ident trim_def .
  have "s = ?l @ ?d" by simp
  with d have "s = ?l @ trim s @ ?r" by simp
  moreover have "\<forall>c \<in> set ?l. isWhiteSpace c" by (auto dest: set_takeWhileD)
  moreover have "\<forall>c \<in> set ?r. isWhiteSpace c" by (auto dest: set_takeWhileD)
  ultimately show ?thesis by blast
qed


section \<open>The parser on file names\<close>

text \<open>
  Claim C5. The parser is said never to throw: a name without a parenthesized group of
  four digits should give a parse error as a value. In the code
  \<open>regexExtractReleaseYear\<close> reads index 1 of the \<^verbatim>\<open>null\<close> that \<^verbatim>\<open>exec\<close>
  returns, so for \<^verbatim>\<open>Portal.zip\<close> it throws a TypeError, which leaves the parser; only the
  \<^verbatim>\<open>catch\<close> clause of \<^verbatim>\<open>indexFiles\<close> turns it into a log line, the file being
  skipped and the store untouched.
\<close>

theorem portal_throws:
  "regexExtractReleaseYear (str ''Portal.zip'') = Inl TypeError \<and>
   gameToIndex \<lparr> name = str ''Portal.zip'', size_f = n \<rparr> = Inl TypeError \<and>
   indexFile svc \<lparr> name = str ''Portal.zip'', size_f = n \<rparr> st =
     ([FailedToIndex TypeError (str ''Portal.zip'')], st)"
  by (simp add: gameToIndex_def indexFile_def tryIndex_def parser_defs)

text \<open>
  Claim C6. The title is said to come from the last path segment alone. The expression
  that removes the directory starts with \<^verbatim>\<open>^.*\<close>, and \<^verbatim>\<open>.\<close> does not match a line
  terminator: for the path made of the directory \<^verbatim>\<open>d\<close> followed by a line feed, a
  slash and \<^verbatim>\<open>Game (2013).zip\<close>, the directory stays in the title, whereas without the
  line feed the title is \<^verbatim>\<open>Game\<close>.
\<close>

theorem title_keeps_directory_behind_line_terminator:
  "regexExtractTitle ([0x64, 0x0A, 0x2F] @ str ''Game (2013).zip'') = [0x64, 0x0A, 0x2F] @ str ''Game'' \<and>
   regexExtractTitle ([0x64, 0x2F] @ str ''Game (2013).zip'') = str ''Game''"
  by (simp add: parser_defs)

text \<open>
  Claim C9, as stated: the title is never empty. For \<^verbatim>\<open>(2013).zip\<close> the title is empty,
  the file parses without an error, and the iteration of \<^verbatim>\<open>indexFiles\<close> hands the game
  with the empty title to \<^verbatim>\<open>saveGame\<close> (shown with a service that records the titles
  it is asked to save).
\<close>

theorem title_empty_counterexample:
  "regexExtractTitle (str ''(2013).zip'') = [] \<and>
   map_sum id title (gameToIndex \<lparr> name = str ''(2013).zip'', size_f = 1 \<rparr>) = Inr [] \<and>
   tryIndex \<lparr> checkIfGameExistsInDatabase = (\<lambda>g st. Inr (DOES_NOT_EXIST, None)),
              saveGame = (\<lambda>g st. Inr (g, st @ [title g])),
              restoreGame = (\<lambda>i st. Inl StoreWriteError),
              deleteGame = (\<lambda>g st. Inr st) \<rparr>
     \<lparr> name = str ''(2013).zip'', size_f = 1 \<rparr> [] =
     (None, [IndexingNewFile (str ''(2013).zip'')], [[]])"
  by (simp add: tryIndex_def gameToIndex_def parser_defs)

text \<open>
  Claim C9, amended. For a path whose directory prefix (the text up to and including the
  last path separator) holds no line terminator, the title is what the rule of the
  specification gives: the last segment, without the final \<^verbatim>\<open>.\<close> and the text after it,
  without its parenthesized groups, with the white space at both ends taken off and nothing
  else; it is empty exactly when nothing but white space is left before the trimming. For
  every path, a title that is not empty neither starts nor ends with white space. The
  title is not checked: for every path with a parenthesized group of four digits the game
  is built with the title as extracted, empty or not.
\<close>

theorem title_may_be_empty:
  "((\<forall>c \<in> set (spec_directoryPrefix p). \<not> isLineTerminator c) \<longrightarrow>
      regexExtractTitle p = trim (spec_removeGroups (spec_dropExtension (spec_lastSegment p))) \<and>
      (\<exists>l r. spec_removeGroups (spec_dropExtension (spec_lastSegment p)) = l @ regexExtractTitle p @ r \<and>
             (\<forall>c \<in> set l. isWhiteSpace c) \<and> (\<forall>c \<in> set r. isWhiteSpace c)) \<and>
      (regexExtractTitle p = [] \<longleftrightarrow>
         (\<forall>c \<in> set (spec_removeGroups (spec_dropExtension (spec_lastSegment p))). isWhiteSpace c))) \<and>
   (regexExtractTitle p \<noteq> [] \<longrightarrow>
      \<not> isWhiteSpace (hd (regexExtractTitle p)) \<and> \<not> isWhiteSpace (last (regexExtractTitle p))) \<and>
   (yearGroupAt p i y \<longrightarrow>
      map_sum id title (gameToIndex \<lparr> name = p, size_f = n \<rparr>) = Inr (regexExtractTitle p))"
proof (intro conjI impI)
  assume a: "\<forall>c \<in> set (spec_directoryPrefix p). \<not> isLineTerminator c"
  let ?rest = "spec_removeGroups (spec_dropExtension (spec_lastSegment p))"
  show t: "regexExtractTitle p = trim ?rest" using a by (rule regexExtractTitle_spec)
  show "\<exists>l r. ?rest = l @ regexExtractTitle p @ r \<and>
             (\<forall>c \<in> set l. isWhiteSpace c) \<and> (\<forall>c \<in> set r. isWhiteSpace c)"
    unfolding t by (rule trim_decomposition)
  show "regexExtractTitle p = [] \<longleftrightarrow> (\<forall>c \<in> set ?rest. isWhiteSpace c)"
    unfolding t by (rule trim_Nil_iff)
next
  assume "regexExtractTitle p \<noteq> []"
  then show "\<not> isWhiteSpace (hd (regexExtractTitle p))" "\<not> isWhiteSpace (last (regexExtractTitle p))"
    unfolding regexExtractTitle_def by (simp_all add: trim_hd_last)
next
  assume "yearGroupAt p i y"
  then obtain y' where "regexExtractReleaseYear p = Inr y'" using year_present by blast
  then show "map_sum id title (gameToIndex \<lparr> name = p, size_f = n \<rparr>) = Inr (regexExtractTitle p)"
    by (simp add: gameToIndex_def)
qed

theorem title_may_be_empty_witness:
  "spec_directoryPrefix (str ''(2013).zip'') = [] \<and>
   regexExtractReleaseYear (str ''(2013).zip'') = Inr (str ''2013'') \<and>
   trim (spec_removeGroups (spec_dropExtension (spec_lastSegment (str ''(2013).zip'')))) = [] \<and>
   map_sum id title (gameToIndex \<lparr> name = str ''(2013).zip'', size_f = 1 \<rparr>) = Inr [] \<and>
   spec_directoryPrefix (str ''games/ Portal 2 (2011).zip'') = str ''games/'' \<and>
   trim (spec_removeGroups (spec_dropExtension (spec_lastSegment (str ''games/ Portal 2 (2011).zip'')))) =
     str ''Portal 2'' \<and>
   \<not> isWhiteSpace (hd (regexExtractTitle (str ''games/ Portal 2 (2011).zip'')))"
proof -
  have d1: "spec_directoryPrefix (str ''(2013).zip'') = []"
    by (simp add: spec_directoryPrefix_def spec_lastSegment_def str_def isSeparator_def)
  then have h1: "\<forall>c \<in> set (spec_directoryPrefix (str ''(2013).zip'')). \<not> isLineTerminator c"
    by simp
  have y1: "yearGroupAt (str ''(2013).zip'') 0 (str ''2013'')"
    by (simp add: yearGroupAt_def str_def isDigit_def)
  have r1: "regexExtractReleaseYear (str ''(2013).zip'') = Inr (str ''2013'')"
    by (simp add: parser_defs)
  have t1: "regexExtractTitle (str ''(2013).zip'') = []" by (simp add: parser_defs)
  have d2: "spec_directoryPrefix (str ''games/ Portal 2 (2011).zip'') = str ''games/''"
    by (simp add: spec_directoryPrefix_def spec_lastSegment_def str_def isSeparator_def)
  have h2: "\<forall>c \<in> set (spec_directoryPrefix (str ''games/ Portal 2 (2011).zip'')). \<not> isLineTerminator c"
    unfolding d2 by (simp add: str_def isLineTerminator_def)
  have t2: "regexExtractTitle (str ''games/ Portal 2 (2011).zip'') = str ''Portal 2''"
    by (simp add: parser_defs)
  have n2: "regexExtractTitle (str ''games/ Portal 2 (2011).zip'') \<noteq> []"
    unfolding t2 by (simp add: str_def)
  from title_may_be_empty[of "str ''(2013).zip''" 0 "str ''2013''" 1] h1 y1 t1
       title_may_be_empty[of "str ''games/ Portal 2 (2011).zip''"] h2 t2 n2
  have "trim (spec_removeGroups (spec_dropExtension (spec_lastSegment (str ''(2013).zip'')))) = [] \<and>
   map_sum id title (gameToIndex \<lparr> name = str ''(2013).zip'', size_f = 1 \<rparr>) = Inr [] \<and>
   trim (spec_removeGroups (spec_dropExtension (spec_lastSegment (str ''games/ Portal 2 (2011).zip'')))) =
     str ''Portal 2'' \<and>
   \<not> isWhiteSpace (hd (regexExtractTitle (str ''games/ Portal 2 (2011).zip'')))"
    by metis
  with d1 r1 d2 show ?thesis by simp
qed

text \<open>
  The release year and the version are searched in the whole path: when the directory
  prefix \<open>dir\<close> of a path contains a parenthesized group of four digits, the year
  extracted from the path is such a group of \<open>dir\<close>, the first one of the path, whatever
  the file name behind the separator is, and building the game does not fail; likewise a
  group \<^verbatim>\<open>(v...)\<close> of the directory prefix gives the version.
\<close>

lemma directory_groups_year_and_version:
  "(yearGroupAt dir k y0 \<longrightarrow>
      (\<exists>i y. i \<le> k \<and> yearGroupAt dir i y \<and>
         (\<forall>j<i. \<forall>y'. \<not> yearGroupAt (dir @ sep # file) j y') \<and>
         regexExtractReleaseYear (dir @ sep # file) = Inr y \<and>
         map_sum id release_date (gameToIndex \<lparr> name = dir @ sep # file, size_f = n \<rparr>) = Inr (newDate y))) \<and>
   (versionGroupAt dir k' v0 \<longrightarrow>
      (\<exists>i v. i \<le> k' \<and> versionGroupAt dir i v \<and>
         (\<forall>j<i. \<forall>v'. \<not> versionGroupAt (dir @ sep # file) j v') \<and>
         regexExtractVersion (dir @ sep # file) = Some v))"
proof (intro conjI impI)
  assume "yearGroupAt dir k y0"
  from year_first_group[OF this, of "sep # file"] obtain i y where
    "regexExtractReleaseYear (dir @ sep # file) = Inr y" "i \<le> k" "yearGroupAt dir i y"
    "\<forall>j<i. \<forall>y'. \<not> yearGroupAt (dir @ sep # file) j y'" by blast
  then show "\<exists>i y. i \<le> k \<and> yearGroupAt dir i y \<and>
         (\<forall>j<i. \<forall>y'. \<not> yearGroupAt (dir @ sep # file) j y') \<and>
         regexExtractReleaseYear (dir @ sep # file) = Inr y \<and>
         map_sum id release_date (gameToIndex \<lparr> name = dir @ sep # file, size_f = n \<rparr>) = Inr (newDate y)"
    by (intro exI[of _ i] exI[of _ y]) (simp add: gameToIndex_def)
next
  assume "versionGroupAt dir k' v0"
  from version_first_group[OF this, of "sep # file"]
  show "\<exists>i v. i \<le> k' \<and> versionGroupAt dir i v \<and>
         (\<forall>j<i. \<forall>v'. \<not> versionGroupAt (dir @ sep # file) j v') \<and>
         regexExtractVersion (dir @ sep # file) = Some v" by blast
qed

text \<open>
  Claim C10. The year and the version are said to come from the whole path while the title
  comes from the last path segment alone. For the path made of the directory
  \<^verbatim>\<open>d (1999)\<close> followed by a line feed, a slash and \<^verbatim>\<open>Game.zip\<close>, the group of the
  directory supplies the year and the game is built, but the expression that removes the
  directory stops at the line feed: the title keeps the directory, less its group, in front
  of \<^verbatim>\<open>Game\<close>. Without the line feed the title is \<^verbatim>\<open>Game\<close>.
\<close>

theorem title_with_directory_year_behind_line_terminator:
  "regexExtractReleaseYear (str ''d (1999)'' @ [0x0A, 0x2F] @ str ''Game.zip'') = Inr (str ''1999'') \<and>
   regexExtractTitle (str ''d (1999)'' @ [0x0A, 0x2F] @ str ''Game.zip'') =
     str ''d '' @ [0x0A, 0x2F] @ str ''Game'' \<and>
   map_sum id title (gameToIndex \<lparr> name = str ''d (1999)'' @ [0x0A, 0x2F] @ str ''Game.zip'', size_f = n \<rparr>) =
     Inr (str ''d '' @ [0x0A, 0x2F] @ str ''Game'') \<and>
   regexExtractReleaseYear (str ''d (1999)'' @ [0x2F] @ str ''Game.zip'') = Inr (str ''1999'') \<and>
   regexExtractTitle (str ''d (1999)'' @ [0x2F] @ str ''Game.zip'') = str ''Game''"
  by (simp add: gameToIndex_def parser_defs)

section \<open>The listing\<close>

text \<open>
  Claim C7. The allow-list of \<^verbatim>\<open>getFiles\<close> names \<^verbatim>\<open>.tar.gz\<close>, \<^verbatim>\<open>.tar.bz2\<close> and
  \<^verbatim>\<open>.tar.xz\<close>, but \<open>extname\<close> never returns an extension with two dots: for
  \<^verbatim>\<open>Game (2020).tar.gz\<close> it returns \<^verbatim>\<open>.gz\<close>, which is not in the list, and the file
  is left out of the listing.
\<close>

theorem tar_gz_never_listed:
  "extname p \<noteq> str ''.tar.gz'' \<and> extname p \<noteq> str ''.tar.bz2'' \<and> extname p \<noteq> str ''.tar.xz'' \<and>
   extname (str ''Game (2020).tar.gz'') = str ''.gz'' \<and>
   getFiles \<lparr> MOCK_FILES = False, FILES = root \<rparr> mock
     \<lparr> readdirSync = (\<lambda>d. Inr [str ''Game (2020).tar.gz'']), statSync = (\<lambda>f. Inr n) \<rparr> = Inr []"
proof -
  have "0x2E \<in> set (tl (str ''.tar.gz''))" "0x2E \<in> set (tl (str ''.tar.bz2''))"
    "0x2E \<in> set (tl (str ''.tar.xz''))" by (simp_all add: str_def)
  then have "extname p \<noteq> str ''.tar.gz'' \<and> extname p \<noteq> str ''.tar.bz2'' \<and> extname p \<noteq> str ''.tar.xz''"
    using extname_one_dot[of p] by metis
  moreover have e: "extname (str ''Game (2020).tar.gz'') = str ''.gz''"
    by (simp add: extname_def str_def)
  moreover have "str ''.gz'' \<notin> set archiveExtensions"
    by (simp add: archiveExtensions_def str_def)
  ultimately show ?thesis by (simp add: getFiles_def)
qed

section \<open>Indexing against the record store\<close>

text \<open>
  Claim C1. On a store that satisfies its invariant, what one iteration of \<^verbatim>\<open>indexFiles\<close>
  does to the store is determined by the verdict of the classifier for the parsed game:
  for \<open>DOES_NOT_EXIST\<close> the game is appended as a new row; for \<open>EXISTS\<close> the store
  is left as it is; for \<open>EXISTS_BUT_DELETED\<close> the soft-delete marker of the matched row is
  cleared by \<^verbatim>\<open>restoreGame\<close> and the row is then overwritten with the six fields of the
  candidate; for \<open>EXISTS_BUT_ALTERED\<close> the matched row, which is active, is overwritten
  with the six fields of the candidate and stays active. The classifier gives no other
  verdict.
\<close>

theorem indexFile_applies_verdict:
  assumes "wf_store st" and "gameToIndex file = Inr c"
  shows
    "(classify c st = (DOES_NOT_EXIST, None) \<longrightarrow>
        indexFile (gamesService now) file st =
          ([IndexingNewFile (name file)], st @ [c\<lparr>id' := Some (freshId st)\<rparr>])) \<and>
     (classify c st = (EXISTS, Some g) \<longrightarrow>
        indexFile (gamesService now) file st = ([IdenticalCopySkipping (name file)], st)) \<and>
     (classify c st = (EXISTS_BUT_DELETED, Some g) \<longrightarrow>
        restoreGame (gamesService now) (id' g) st =
          Inr (g\<lparr>deleted_at := None\<rparr>,
               map (\<lambda>r. if id' r = id' g then r\<lparr>deleted_at := None\<rparr> else r) st) \<and>
        indexFile (gamesService now) file st =
          ([RestoringSoftDeleted (name file), UpdatedGameInformation (name file)],
           map (\<lambda>r. if id' r = id' g
                     then g\<lparr> deleted_at := None, file_path := file_path c, title := title c,
                             release_date := release_date c, size' := size' c,
                             version := version c, early_access := early_access c \<rparr>
                     else r) st)) \<and>
     (classify c st = (EXISTS_BUT_ALTERED, Some g) \<longrightarrow>
        deleted_at g = None \<and>
        indexFile (gamesService now) file st =
          ([DetectedChanges (name file), UpdatedGameInformation (name file)],
           map (\<lambda>r. if id' r = id' g
                     then g\<lparr> file_path := file_path c, title := title c,
                             release_date := release_date c, size' := size' c,
                             version := version c, early_access := early_access c \<rparr>
                     else r) st)) \<and>
     (\<exists>found. classify c st \<in> {(DOES_NOT_EXIST, None), (EXISTS, Some found),
                                   (EXISTS_BUT_DELETED, Some found), (EXISTS_BUT_ALTERED, Some found)})"
proof -
  note c = gameToIndex_fields[OF assms(2)]
  have new: "indexFile (gamesService now) file st =
          ([IndexingNewFile (name file)], st @ [c\<lparr>id' := Some (freshId st)\<rparr>])"
    if "classify c st = (DOES_NOT_EXIST, None)"
    using classify_cases(1)[OF that] assms c by (simp add: indexFile_store)
  have same: "indexFile (gamesService now) file st = ([IdenticalCopySkipping (name file)], st)"
    if "classify c st = (EXISTS, Some g)"
    using classify_cases(2)[OF that] assms c by (simp add: indexFile_store)
  have restored: "restoreGame (gamesService now) (id' g) st =
          Inr (g\<lparr>deleted_at := None\<rparr>,
               map (\<lambda>r. if id' r = id' g then r\<lparr>deleted_at := None\<rparr> else r) st) \<and>
        indexFile (gamesService now) file st =
          ([RestoringSoftDeleted (name file), UpdatedGameInformation (name file)],
           map (\<lambda>r. if id' r = id' g
                     then g\<lparr> deleted_at := None, file_path := file_path c, title := title c,
                             release_date := release_date c, size' := size' c,
                             version := version c, early_access := early_access c \<rparr>
                     else r) st)"
    if "classify c st = (EXISTS_BUT_DELETED, Some g)"
  proof -
    from classify_cases(3)[OF that] c have f: "findByPath (name file) st = Some g"
      and d: "deleted_at g \<noteq> None" by simp_all
    note g = findByPath_Some[OF f]
    from assms(1) g have i: "id' g \<noteq> None" by (auto simp: wf_store_def)
    from assms(1) g have "find (\<lambda>r. id' r = id' g) st = Some g"
      by (simp add: find_by_id wf_store_def)
    with i have "restoreGame (gamesService now) (id' g) st =
          Inr (g\<lparr>deleted_at := None\<rparr>,
               map (\<lambda>r. if id' r = id' g then r\<lparr>deleted_at := None\<rparr> else r) st)"
      by (simp add: gamesService_def restore_def)
    then show ?thesis using indexFile_overwrites_row(1)[OF assms that] by simp
  qed
  have altered: "deleted_at g = None \<and>
        indexFile (gamesService now) file st =
          ([DetectedChanges (name file), UpdatedGameInformation (name file)],
           map (\<lambda>r. if id' r = id' g
                     then g\<lparr> file_path := file_path c, title := title c,
                             release_date := release_date c, size' := size' c,
                             version := version c, early_access := early_access c \<rparr>
                     else r) st)"
    if "classify c st = (EXISTS_BUT_ALTERED, Some g)"
  proof -
    from classify_cases(4)[OF that] c have f: "findByPath (name file) st = Some g"
      and d: "deleted_at g = None" "size' g \<noteq> size_f file" by simp_all
    show ?thesis using d indexFile_overwrites_row(2)[OF assms that] by simp
  qed
  have total: "\<exists>found. classify c st \<in> {(DOES_NOT_EXIST, None), (EXISTS, Some found),
                                   (EXISTS_BUT_DELETED, Some found), (EXISTS_BUT_ALTERED, Some found)}"
    by (auto simp: classify_def split: option.splits)
  from new same restored altered total show ?thesis by blast
qed

theorem indexFile_applies_verdict_witness:
  "wf_store [] \<and> wf_store [exampleRow 1 portal2 10 None] \<and> wf_store [exampleRow 1 portal2 10 (Some 5)] \<and>
   snd (indexFile (gamesService 0) \<lparr> name = portal2, size_f = 10 \<rparr> [exampleRow 1 portal2 10 None]) =
     [exampleRow 1 portal2 10 None] \<and>
   map (\<lambda>g. (id' g, deleted_at g, size' g, rawg_id g))
     (snd (indexFile (gamesService 0) \<lparr> name = portal2, size_f = 11 \<rparr> [])) = [(Some 1, None, 11, None)] \<and>
   map (\<lambda>g. (id' g, deleted_at g, size' g, rawg_id g))
     (snd (indexFile (gamesService 0) \<lparr> name = portal2, size_f = 11 \<rparr> [exampleRow 1 portal2 10 (Some 5)])) =
     [(Some 1, None, 11, Some 3498)] \<and>
   map (\<lambda>g. (id' g, deleted_at g, size' g, rawg_id g))
     (snd (indexFile (gamesService 0) \<lparr> name = portal2, size_f = 11 \<rparr> [exampleRow 1 portal2 10 None])) =
     [(Some 1, None, 11, Some 3498)]"
proof -
  obtain c where c: "gameToIndex \<lparr> name = portal2, size_f = 10 \<rparr> = Inr c"
    using example_parse(1) by blast
  obtain c' where c': "gameToIndex \<lparr> name = portal2, size_f = 11 \<rparr> = Inr c'"
    using example_parse(1) by blast
  note f = gameToIndex_fields[OF c] and f' = gameToIndex_fields[OF c']
  have wf0: "wf_store []" by (simp add: wf_store_def)
  have wf1: "wf_store [exampleRow 1 portal2 10 None]" by (simp add: wf_store_def exampleRow_def)
  have wf2: "wf_store [exampleRow 1 portal2 10 (Some 5)]" by (simp add: wf_store_def exampleRow_def)
  have new: "classify c' [] = (DOES_NOT_EXIST, None)"
    by (simp add: classify_def findByPath_def)
  have same: "classify c [exampleRow 1 portal2 10 None] = (EXISTS, Some (exampleRow 1 portal2 10 None))"
    using f by (simp add: classify_def findByPath_def exampleRow_def)
  have del: "classify c' [exampleRow 1 portal2 10 (Some 5)] =
               (EXISTS_BUT_DELETED, Some (exampleRow 1 portal2 10 (Some 5)))"
    using f' by (simp add: classify_def findByPath_def exampleRow_def)
  have alt: "classify c' [exampleRow 1 portal2 10 None] =
               (EXISTS_BUT_ALTERED, Some (exampleRow 1 portal2 10 None))"
    using f' by (simp add: classify_def findByPath_def exampleRow_def)
  have 1: "snd (indexFile (gamesService 0) \<lparr> name = portal2, size_f = 11 \<rparr> []) =
             [c'\<lparr>id' := Some (freshId [])\<rparr>]"
    using indexFile_applies_verdict[OF wf0 c', where now = 0] new by simp
  have 2: "snd (indexFile (gamesService 0) \<lparr> name = portal2, size_f = 10 \<rparr> [exampleRow 1 portal2 10 None]) =
             [exampleRow 1 portal2 10 None]"
    using indexFile_applies_verdict[OF wf1 c, where g = "exampleRow 1 portal2 10 None" and now = 0] same by simp
  have 3: "map (\<lambda>g. (id' g, deleted_at g, size' g, rawg_id g))
     (snd (indexFile (gamesService 0) \<lparr> name = portal2, size_f = 11 \<rparr> [exampleRow 1 portal2 10 (Some 5)])) =
     [(Some 1, None, 11, Some 3498)]"
    using indexFile_applies_verdict[OF wf2 c', where g = "exampleRow 1 portal2 10 (Some 5)" and now = 0] del f'
    by (simp add: exampleRow_def)
  have 4: "map (\<lambda>g. (id' g, deleted_at g, size' g, rawg_id g))
     (snd (indexFile (gamesService 0) \<lparr> name = portal2, size_f = 11 \<rparr> [exampleRow 1 portal2 10 None])) =
     [(Some 1, None, 11, Some 3498)]"
    using indexFile_applies_verdict[OF wf1 c', where g = "exampleRow 1 portal2 10 None" and now = 0] alt f'
    by (simp add: exampleRow_def)
  have 5: "rawg_id c' = None" using c' by (auto simp: gameToIndex_def split: sum.splits)
  from 1 2 3 4 5 f' wf0 wf1 wf2 show ?thesis by (simp add: freshId_def)
qed

text \<open>
  Claim C8. When the verdict is \<open>EXISTS_BUT_DELETED\<close> or \<open>EXISTS_BUT_ALTERED\<close>, the
  iteration changes the matched row and no other: its path, title, release date, size,
  version and early access flag are those of the candidate and its soft-delete marker is
  clear, while its identifier, the fields that come from RAWG, the images and all relations
  are what they were. No row is added, and on an alteration the number of active rows stays
  the same.
\<close>

theorem update_in_place_frame:
  assumes "wf_store st" and "gameToIndex file = Inr c"
    and "classify c st = (verdict, Some g)"
    and "verdict = EXISTS_BUT_DELETED \<or> verdict = EXISTS_BUT_ALTERED"
  shows
    "snd (indexFile (gamesService now) file st) =
       map (\<lambda>r. if id' r = id' g
                 then r\<lparr> deleted_at := None, file_path := file_path c, title := title c,
                         release_date := release_date c, size' := size' c,
                         version := version c, early_access := early_access c \<rparr>
                 else r) st \<and>
     length (snd (indexFile (gamesService now) file st)) = length st \<and>
     (\<forall>r \<in> set (snd (indexFile (gamesService now) file st)).
        id' r = id' g \<longrightarrow>
          rawg_id r = rawg_id g \<and> rawg_title r = rawg_title g \<and>
          rawg_release_date r = rawg_release_date g \<and> cache_date r = cache_date g \<and>
          description r = description g \<and> box_image r = box_image g \<and>
          background_image r = background_image g \<and> website_url r = website_url g \<and>
          metacritic_rating r = metacritic_rating g \<and> average_playtime r = average_playtime g \<and>
          progresses r = progresses g \<and> publishers r = publishers g \<and>
          developers r = developers g \<and> stores r = stores g \<and> tags r = tags g \<and>
          genres r = genres g \<and>
          deleted_at r = None \<and> file_path r = file_path c \<and> title r = title c \<and>
          release_date r = release_date c \<and> size' r = size' c \<and> version r = version c \<and>
          early_access r = early_access c) \<and>
     (verdict = EXISTS_BUT_ALTERED \<longrightarrow>
        length (listActive (snd (indexFile (gamesService now) file st))) = length (listActive st))"
proof -
  let ?h = "\<lambda>r. if id' r = id' g
                 then r\<lparr> deleted_at := None, file_path := file_path c, title := title c,
                         release_date := release_date c, size' := size' c,
                         version := version c, early_access := early_access c \<rparr>
                 else r"
  from assms(3,4) have f: "findByPath (file_path c) st = Some g"
    by (auto dest: classify_cases)
  note g = findByPath_Some[OF f]
  from assms(1) have inj: "inj_on id' (set st)" by (simp add: wf_store_def distinct_map)
  have own: "r = g" if "r \<in> set st" "id' r = id' g" for r
    using inj that g by (auto dest: inj_onD)
  have store: "snd (indexFile (gamesService now) file st) = map ?h st"
  proof -
    from assms(4) show ?thesis
    proof
      assume v: "verdict = EXISTS_BUT_DELETED"
      then have "snd (indexFile (gamesService now) file st) =
           map (\<lambda>r. if id' r = id' g
                     then g\<lparr> deleted_at := None, file_path := file_path c, title := title c,
                             release_date := release_date c, size' := size' c,
                             version := version c, early_access := early_access c \<rparr>
                     else r) st"
        using indexFile_overwrites_row(1)[OF assms(1,2), of g now] assms(3) by simp
      also have "\<dots> = map ?h st" using own by (intro map_cong refl) auto
      finally show ?thesis .
    next
      assume v: "verdict = EXISTS_BUT_ALTERED"
      then have d: "deleted_at g = None" using assms(3) by (auto dest: classify_cases)
      from v have "snd (indexFile (gamesService now) file st) =
           map (\<lambda>r. if id' r = id' g
                     then g\<lparr> file_path := file_path c, title := title c,
                             release_date := release_date c, size' := size' c,
                             version := version c, early_access := early_access c \<rparr>
                     else r) st"
        using indexFile_overwrites_row(2)[OF assms(1,2), of g now] assms(3) by simp
      also have "\<dots> = map ?h st"
      proof (intro map_cong refl)
        fix x assume x: "x \<in> set st"
        have gid: "g\<lparr>deleted_at := None\<rparr> = g" using d by simp
        show "(if id' x = id' g
                 then g\<lparr> file_path := file_path c, title := title c,
                         release_date := release_date c, size' := size' c,
                         version := version c, early_access := early_access c \<rparr>
                 else x) = ?h x"
        proof (cases "id' x = id' g")
          case True
          with own x have xg: "x = g" by simp
          show ?thesis unfolding xg gid by simp
        next
          case False
          then show ?thesis by simp
        qed
      qed
      finally show ?thesis .
    qed
  qed
  have fields: "\<forall>r \<in> set (map ?h st).
        id' r = id' g \<longrightarrow>
          rawg_id r = rawg_id g \<and> rawg_title r = rawg_title g \<and>
          rawg_release_date r = rawg_release_date g \<and> cache_date r = cache_date g \<and>
          description r = description g \<and> box_image r = box_image g \<and>
          background_image r = background_image g \<and> website_url r = website_url g \<and>
          metacritic_rating r = metacritic_rating g \<and> average_playtime r = average_playtime g \<and>
          progresses r = progresses g \<and> publishers r = publishers g \<and>
          developers r = developers g \<and> stores r = stores g \<and> tags r = tags g \<and>
          genres r = genres g \<and>
          deleted_at r = None \<and> file_path r = file_path c \<and> title r = title c \<and>
          release_date r = release_date c \<and> size' r = size' c \<and> version r = version c \<and>
          early_access r = early_access c"
  proof
    fix r assume "r \<in> set (map ?h st)"
    then obtain r0 where r0: "r0 \<in> set st" "r = ?h r0" by auto
    show "id' r = id' g \<longrightarrow>
          rawg_id r = rawg_id g \<and> rawg_title r = rawg_title g \<and>
          rawg_release_date r = rawg_release_date g \<and> cache_date r = cache_date g \<and>
          description r = description g \<and> box_image r = box_image g \<and>
          background_image r = background_image g \<and> website_url r = website_url g \<and>
          metacritic_rating r = metacritic_rating g \<and> average_playtime r = average_playtime g \<and>
          progresses r = progresses g \<and> publishers r = publishers g \<and>
          developers r = developers g \<and> stores r = stores g \<and> tags r = tags g \<and>
          genres r = genres g \<and>
          deleted_at r = None \<and> file_path r = file_path c \<and> title r = title c \<and>
          release_date r = release_date c \<and> size' r = size' c \<and> version r = version c \<and>
          early_access r = early_access c"
    proof (cases "id' r0 = id' g")
      case True
      with own r0 have "r0 = g" by simp
      with r0(2) show ?thesis by simp
    next
      case False
      with r0(2) show ?thesis by simp
    qed
  qed
  have active: "length (listActive (map ?h st)) = length (listActive st)"
    if "verdict = EXISTS_BUT_ALTERED"
  proof -
    from that have d: "deleted_at g = None" using assms(3) by (auto dest: classify_cases)
    have "filter (\<lambda>g. deleted_at g = None) (map ?h st) =
          map ?h (filter (\<lambda>g. deleted_at g = None) st)"
      unfolding filter_map using own d by (intro arg_cong[where f = "map ?h"] filter_cong refl) auto
    then show ?thesis by (simp add: listActive_def)
  qed
  show ?thesis unfolding store
  proof (intro conjI)
    show "map ?h st = map ?h st" ..
    show "length (map ?h st) = length st" by (rule length_map)
    show "\<forall>r \<in> set (map ?h st).
        id' r = id' g \<longrightarrow>
          rawg_id r = rawg_id g \<and> rawg_title r = rawg_title g \<and>
          rawg_release_date r = rawg_release_date g \<and> cache_date r = cache_date g \<and>
          description r = description g \<and> box_image r = box_image g \<and>
          background_image r = background_image g \<and> website_url r = website_url g \<and>
          metacritic_rating r = metacritic_rating g \<and> average_playtime r = average_playtime g \<and>
          progresses r = progresses g \<and> publishers r = publishers g \<and>
          developers r = developers g \<and> stores r = stores g \<and> tags r = tags g \<and>
          genres r = genres g \<and>
          deleted_at r = None \<and> file_path r = file_path c \<and> title r = title c \<and>
          release_date r = release_date c \<and> size' r = size' c \<and> version r = version c \<and>
          early_access r = early_access c" by (rule fields)
    show "verdict = EXISTS_BUT_ALTERED \<longrightarrow> length (listActive (map ?h st)) = length (listActive st)"
      using active by blast
  qed
qed

theorem update_in_place_frame_witness:
  "wf_store [exampleRow 1 portal2 10 None, exampleRow 2 halfLife 20 (Some 5)] \<and>
   map (\<lambda>g. (id' g, deleted_at g, size' g, rawg_id g, tags g))
     (snd (indexFile (gamesService 0) \<lparr> name = portal2, size_f = 11 \<rparr>
            [exampleRow 1 portal2 10 None, exampleRow 2 halfLife 20 (Some 5)])) =
     [(Some 1, None, 11, Some 3498, [6, 7]), (Some 2, Some 5, 20, Some 3498, [6, 7])] \<and>
   map (\<lambda>g. (id' g, deleted_at g, size' g, rawg_id g, tags g))
     (snd (indexFile (gamesService 0) \<lparr> name = halfLife, size_f = 21 \<rparr>
            [exampleRow 1 portal2 10 None, exampleRow 2 halfLife 20 (Some 5)])) =
     [(Some 1, None, 10, Some 3498, [6, 7]), (Some 2, None, 21, Some 3498, [6, 7])]"
proof -
  let ?st = "[exampleRow 1 portal2 10 None, exampleRow 2 halfLife 20 (Some 5)]"
  obtain c where c: "gameToIndex \<lparr> name = portal2, size_f = 11 \<rparr> = Inr c"
    using example_parse(1) by blast
  obtain c' where c': "gameToIndex \<lparr> name = halfLife, size_f = 21 \<rparr> = Inr c'"
    using example_parse(2) by blast
  note f = gameToIndex_fields[OF c] and f' = gameToIndex_fields[OF c']
  have wf: "wf_store ?st"
    by (simp add: wf_store_def exampleRow_def example_paths)
  have alt: "classify c ?st = (EXISTS_BUT_ALTERED, Some (exampleRow 1 portal2 10 None))"
    using f by (simp add: classify_def findByPath_def exampleRow_def)
  have del: "classify c' ?st = (EXISTS_BUT_DELETED, Some (exampleRow 2 halfLife 20 (Some 5)))"
    using f' by (simp add: classify_def findByPath_def exampleRow_def example_paths)
  have 1: "map (\<lambda>g. (id' g, deleted_at g, size' g, rawg_id g, tags g))
     (snd (indexFile (gamesService 0) \<lparr> name = portal2, size_f = 11 \<rparr> ?st)) =
     [(Some 1, None, 11, Some 3498, [6, 7]), (Some 2, Some 5, 20, Some 3498, [6, 7])]"
    using conjunct1[OF update_in_place_frame[OF wf c alt disjI2[OF refl], where now = 0]] f
    by (simp add: exampleRow_def)
  have 2: "map (\<lambda>g. (id' g, deleted_at g, size' g, rawg_id g, tags g))
     (snd (indexFile (gamesService 0) \<lparr> name = halfLife, size_f = 21 \<rparr> ?st)) =
     [(Some 1, None, 10, Some 3498, [6, 7]), (Some 2, None, 21, Some 3498, [6, 7])]"
    using conjunct1[OF update_in_place_frame[OF wf c' del disjI1[OF refl], where now = 0]] f'
    by (simp add: exampleRow_def example_paths)
  from wf 1 2 show ?thesis by simp
qed

section \<open>The integrity check against the record store\<close>

text \<open>
  Claim C2. Run on the active rows of a store that satisfies its invariant,
  \<^verbatim>\<open>integrityCheck\<close> returns normally and sets the soft-delete marker of exactly the
  active rows whose path is the name of no file of the listing; every other row is left as
  it is, no row is removed, and indexing the listing does not remove a row either.
\<close>

theorem integrityCheck_soft_deletes_missing:
  assumes "wf_store st"
  shows
    "integrityCheck (gamesService now) files (listActive st) st =
       (None,
        STARTED_INTEGRITY_CHECK #
          map (\<lambda>g. MarkedAsDeleted (file_path g))
            (filter (\<lambda>g. file_path g \<notin> name ` set files) (listActive st)) @
          [FINISHED_INTEGRITY_CHECK],
        map (\<lambda>g. if deleted_at g = None \<and> file_path g \<notin> name ` set files
                  then g\<lparr>deleted_at := Some now\<rparr> else g) st) \<and>
     length (snd (snd (integrityCheck (gamesService now) files (listActive st) st))) = length st \<and>
     length st \<le> length (snd (snd (indexFiles (gamesService now) files st)))"
proof -
  have "length st \<le> length (snd (snd (indexFiles (gamesService now) files st)))"
    using indexLoop_rows[OF assms] by (simp only: indexFiles_store)
  then show ?thesis using integrityCheck_store[OF assms, of now files] by simp
qed

theorem integrityCheck_soft_deletes_missing_witness:
  "wf_store [exampleRow 1 portal2 10 None, exampleRow 2 halfLife 20 None, exampleRow 3 (str ''Doom (1993).zip'') 30 (Some 5)] \<and>
   snd (snd (integrityCheck (gamesService 7) [\<lparr> name = halfLife, size_f = 20 \<rparr>]
        (listActive [exampleRow 1 portal2 10 None, exampleRow 2 halfLife 20 None, exampleRow 3 (str ''Doom (1993).zip'') 30 (Some 5)])
        [exampleRow 1 portal2 10 None, exampleRow 2 halfLife 20 None, exampleRow 3 (str ''Doom (1993).zip'') 30 (Some 5)])) =
     [exampleRow 1 portal2 10 (Some 7), exampleRow 2 halfLife 20 None, exampleRow 3 (str ''Doom (1993).zip'') 30 (Some 5)]"
proof -
  have wf: "wf_store [exampleRow 1 portal2 10 None, exampleRow 2 halfLife 20 None, exampleRow 3 (str ''Doom (1993).zip'') 30 (Some 5)]"
    by (simp add: wf_store_def exampleRow_def portal2_def halfLife_def str_def)
  from integrityCheck_soft_deletes_missing[OF wf, of 7 "[\<lparr> name = halfLife, size_f = 20 \<rparr>]"] wf
  show ?thesis by (simp add: exampleRow_def example_paths)
qed

section \<open>Running the indexing twice\<close>

text \<open>
  Claim C3, as stated for every list of files: a list that names the same path twice
  with different sizes makes the second run update the row again, once for each of the two
  entries.
\<close>

theorem indexFiles_second_run_counterexample:
  "fst (snd (indexFiles (gamesService 0)
          [\<lparr> name = str ''A (2013).zip'', size_f = 1 \<rparr>, \<lparr> name = str ''A (2013).zip'', size_f = 2 \<rparr>]
          (snd (snd (indexFiles (gamesService 0)
             [\<lparr> name = str ''A (2013).zip'', size_f = 1 \<rparr>, \<lparr> name = str ''A (2013).zip'', size_f = 2 \<rparr>] []))))) =
     [STARTED_FILE_INDEXING,
      DetectedChanges (str ''A (2013).zip''), UpdatedGameInformation (str ''A (2013).zip''),
      DetectedChanges (str ''A (2013).zip''), UpdatedGameInformation (str ''A (2013).zip''),
      FINISHED_FILE_INDEXING] \<and>
   map size' (snd (snd (indexFiles (gamesService 0)
             [\<lparr> name = str ''A (2013).zip'', size_f = 1 \<rparr>, \<lparr> name = str ''A (2013).zip'', size_f = 2 \<rparr>] []))) = [2] \<and>
   map size' (snd (indexFile (gamesService 0) \<lparr> name = str ''A (2013).zip'', size_f = 1 \<rparr>
          (snd (snd (indexFiles (gamesService 0)
             [\<lparr> name = str ''A (2013).zip'', size_f = 1 \<rparr>, \<lparr> name = str ''A (2013).zip'', size_f = 2 \<rparr>] []))))) = [1]"
  by (simp add: store_defs parser_defs)

text \<open>
  Claim C3, amended: when no two files of the listing have the same name, a second run of
  \<^verbatim>\<open>indexFiles\<close> on the store left by the first run finds every file that parses
  classified as \<open>EXISTS\<close>, every iteration leaves the store as it is, and so does the
  whole run.
\<close>

theorem indexFiles_second_run_is_noop:
  assumes "wf_store st" and "distinct (map name files)"
  shows
    "indexFiles (gamesService now) files (snd (snd (indexFiles (gamesService now) files st))) =
       (None, STARTED_FILE_INDEXING # map secondRunLine files @ [FINISHED_FILE_INDEXING],
        snd (snd (indexFiles (gamesService now) files st))) \<and>
     (\<forall>f \<in> set files.
        indexFile (gamesService now) f (snd (snd (indexFiles (gamesService now) files st))) =
          ([secondRunLine f], snd (snd (indexFiles (gamesService now) files st)))) \<and>
     (\<forall>f \<in> set files. \<forall>c. gameToIndex f = Inr c \<longrightarrow>
        fst (classify c (snd (snd (indexFiles (gamesService now) files st)))) = EXISTS)"
proof -
  let ?st1 = "snd (snd (indexFiles (gamesService now) files st))"
  have st1: "?st1 = snd (indexLoop (gamesService now) files st)" by (rule indexFiles_store)
  have wf1: "wf_store ?st1" unfolding st1 using assms(1) by (rule indexLoop_wf)
  have up: "\<forall>f \<in> set files. upToDate f ?st1"
    unfolding st1 using assms by (auto intro: indexLoop_settles)
  have 1: "indexFiles (gamesService now) files ?st1 =
       (None, STARTED_FILE_INDEXING # map secondRunLine files @ [FINISHED_FILE_INDEXING], ?st1)"
    using indexLoop_upToDate[OF wf1 up, of now] by (simp add: indexFiles_def)
  have 2: "\<forall>f \<in> set files. indexFile (gamesService now) f ?st1 = ([secondRunLine f], ?st1)"
    using up indexFile_upToDate[OF wf1] by blast
  have 3: "\<forall>f \<in> set files. \<forall>c. gameToIndex f = Inr c \<longrightarrow> fst (classify c ?st1) = EXISTS"
    using up by (auto simp: upToDate_def)
  from 1 2 3 show ?thesis by blast
qed

theorem indexFiles_second_run_is_noop_witness:
  "wf_store [exampleRow 1 portal2 10 (Some 5)] \<and>
   distinct (map name [\<lparr> name = portal2, size_f = 11 \<rparr>, \<lparr> name = halfLife, size_f = 20 \<rparr>]) \<and>
   snd (snd (indexFiles (gamesService 0) [\<lparr> name = portal2, size_f = 11 \<rparr>, \<lparr> name = halfLife, size_f = 20 \<rparr>]
         (snd (snd (indexFiles (gamesService 0) [\<lparr> name = portal2, size_f = 11 \<rparr>, \<lparr> name = halfLife, size_f = 20 \<rparr>]
                [exampleRow 1 portal2 10 (Some 5)]))))) =
   snd (snd (indexFiles (gamesService 0) [\<lparr> name = portal2, size_f = 11 \<rparr>, \<lparr> name = halfLife, size_f = 20 \<rparr>]
         [exampleRow 1 portal2 10 (Some 5)]))"
proof -
  have wf: "wf_store [exampleRow 1 portal2 10 (Some 5)]"
    by (simp add: wf_store_def exampleRow_def)
  have d: "distinct (map name [\<lparr> name = portal2, size_f = 11 \<rparr>, \<lparr> name = halfLife, size_f = 20 \<rparr>])"
    by (simp add: example_paths)
  from indexFiles_second_run_is_noop[OF wf d, of 0] wf d show ?thesis by simp
qed

section \<open>Failures of single files\<close>




end
